theory Spec2Isabelle
  imports Complex_Main "HOL-Library.Word"
begin

section \<open>Frames and the change detector\<close>

text \<open>
  A frame is a PIL image in mode RGB (\<open>capture_window\<close> returns \<open>img.convert('RGB')\<close>):
  a size and one 8-bit sample per band and pixel, in row order.
\<close>

type_synonym pixel = "8 word \<times> 8 word \<times> 8 word"

record image =
  width :: nat
  height :: nat
  pixels :: "pixel list"

definition img_size :: "image \<Rightarrow> nat \<times> nat" where
  "img_size im = (width im, height im)"

fun red :: "pixel \<Rightarrow> 8 word" where
  "red (r, g, b) = r"

fun green :: "pixel \<Rightarrow> 8 word" where
  "green (r, g, b) = g"

fun blue :: "pixel \<Rightarrow> 8 word" where
  "blue (r, g, b) = b"

datatype py_exc = ZeroDivisionError | TypeError | OSError | ValueError | OverflowError

text \<open>\<open>ImageChops.difference\<close>: the absolute value of the band-wise difference.\<close>

definition abs_diff :: "8 word \<Rightarrow> 8 word \<Rightarrow> 8 word" where
  "abs_diff a b = (if a \<le> b then b - a else a - b)"

fun pixel_diff :: "pixel \<Rightarrow> pixel \<Rightarrow> pixel" where
  "pixel_diff (r1, g1, b1) (r2, g2, b2) = (abs_diff r1 r2, abs_diff g1 g2, abs_diff b1 b2)"

definition difference :: "image \<Rightarrow> image \<Rightarrow> image" where
  "difference img1 img2 =
     \<lparr>width = width img1, height = height img1,
      pixels = map2 pixel_diff (pixels img1) (pixels img2)\<rparr>"

text \<open>
  \<open>Image.histogram()\<close>: one count per sample value, the histograms of the bands
  concatenated, so an RGB image has 768 entries: 0..255 for the red band, 256..511 for
  the green band, 512..767 for the blue band.
\<close>

definition band_histogram :: "8 word list \<Rightarrow> nat list" where
  "band_histogram vs = map (\<lambda>v. length (filter (\<lambda>x. unat x = v) vs)) [0..<256]"

definition histogram :: "image \<Rightarrow> nat list" where
  "histogram im =
     band_histogram (map red (pixels im)) @
     band_histogram (map green (pixels im)) @
     band_histogram (map blue (pixels im))"

definition DIFF_THRESHOLD :: rat where
  "DIFF_THRESHOLD = 1 / 2"

text \<open>
  \<open>images_different\<close>, with Python's true division and float comparison read as exact
  rational arithmetic, and the division by zero of an empty image as an error value.
\<close>

definition images_different :: "image \<Rightarrow> image \<Rightarrow> py_exc + bool" where
  "images_different img1 img2 =
     (if img_size img1 \<noteq> img_size img2 then Inr True
      else
        let diff = difference img1 img2;
            hist = histogram diff;
            non_zero = sum_list (map (\<lambda>i. hist ! i) [1..<256])
        in if width img1 * height img1 * 3 = 0 then Inl ZeroDivisionError
           else Inr ((of_nat non_zero / of_nat (width img1 * height img1 * 3)) * 100
                       > DIFF_THRESHOLD))"

text \<open>
  What the claim describes: the non-zero samples of the difference image counted over
  all three bands.
\<close>

definition nonzero_samples :: "image \<Rightarrow> nat" where
  "nonzero_samples d =
     length (filter (\<lambda>p. red p \<noteq> 0) (pixels d)) +
     length (filter (\<lambda>p. green p \<noteq> 0) (pixels d)) +
     length (filter (\<lambda>p. blue p \<noteq> 0) (pixels d))"

definition diff_percentage :: "image \<Rightarrow> image \<Rightarrow> rat" where
  "diff_percentage img1 img2 =
     (of_nat (nonzero_samples (difference img1 img2)) /
      of_nat (width img1 * height img1 * 3)) * 100"

definition black1 :: image where
  "black1 = \<lparr>width = 1, height = 1, pixels = [(0, 0, 0)]\<rparr>"

definition green1 :: image where
  "green1 = \<lparr>width = 1, height = 1, pixels = [(0, 255, 0)]\<rparr>"

section \<open>Session state\<close>

text \<open>
  The status line is a Python string of Japanese text and pictographs. Each message the
  source builds is one constructor here, carrying the values the source formats into it:
  \<^item> \<open>StStopped\<close>: the initial text and the one \<open>stop_capture\<close> sets;
  \<^item> \<open>StRegion x y w h\<close>: the region text of \<open>interactive_select_region\<close>;
  \<^item> \<open>StSaved parts\<close>: the check mark followed by the parts joined with \<open>" / "\<close>;
  \<^item> \<open>StSavedName f\<close>: the check mark followed by the file name (no part was collected);
  \<^item> \<open>StPleaseStart\<close>, \<open>StWindowUnselected\<close>, \<open>StRegionUnset\<close>, \<open>StCaptureFailed\<close>:
    the four failure texts of \<open>manual_capture\<close>;
  \<^item> \<open>StChangeDetected\<close>: the text of the polling loop on a change;
  \<^item> \<open>StSelectWindowFirst\<close>, \<open>StSelectRegionFirst\<close>: the two failure texts of
    \<open>start_capture\<close>;
  \<^item> \<open>StManualReady\<close>, \<open>StMonitoring\<close>: the texts of a started manual and auto session.
\<close>

datatype save_part = FolderPart string | ClipCopied | ClipFailed

datatype status_msg =
    StStopped
  | StRegion int int int int
  | StSaved "save_part list"
  | StSavedName string
  | StPleaseStart
  | StWindowUnselected
  | StRegionUnset
  | StCaptureFailed
  | StChangeDetected
  | StSelectWindowFirst
  | StSelectRegionFirst
  | StManualReady
  | StMonitoring

text \<open>
  A Python float as far as the program depends on it: a finite value, read as an exact
  rational, an infinity, or not a number. The settling time and the polling interval are
  stored as \<open>float(...)\<close> of a query text without validation, so they range over all of
  these; a reading of \<open>time.time()\<close> is finite and is a rational.
\<close>

datatype pyfloat = Finite rat | PosInf | NegInf | NaN

text \<open>\<open>x >= y\<close> for a finite \<open>x\<close> and a float \<open>y\<close>.\<close>

fun ge_float :: "rat \<Rightarrow> pyfloat \<Rightarrow> bool" where
  "ge_float x (Finite y) = (y \<le> x)"
| "ge_float x PosInf = False"
| "ge_float x NegInf = True"
| "ge_float x NaN = False"

text \<open>
  \<open>time.sleep(t)\<close>: the exception it raises, if any. Not a number and a negative length
  raise \<open>ValueError\<close>; a length outside the 64-bit range of nanoseconds of the clock
  type raises \<open>OverflowError\<close>, checked before the sign.
\<close>

fun sleep_error :: "pyfloat \<Rightarrow> py_exc option" where
  "sleep_error NaN = Some ValueError"
| "sleep_error PosInf = Some OverflowError"
| "sleep_error NegInf = Some OverflowError"
| "sleep_error (Finite t) =
     (if t * 1000000000 < - (2 ^ 63) \<or> 2 ^ 63 \<le> t * 1000000000 then Some OverflowError
      else if t < 0 then Some ValueError
      else None)"

text \<open>
  \<open>AppState\<close>. \<open>auto_thread\<close> records only whether a thread object is stored.
\<close>

record app_state =
  capture_mode :: string
  target_window_id :: "int option"
  target_window_name :: string
  target_owner_name :: string
  region :: "(int \<times> int \<times> int \<times> int) option"
  retina_scale :: int
  save_dir :: string
  save_mode :: string
  is_running :: bool
  capture_count :: int
  mode :: string
  last_image :: "image option"
  change_detected_time :: "rat option"
  auto_thread :: "unit option"
  status :: status_msg
  settling_time :: pyfloat
  polling_interval :: pyfloat

definition initial_state :: "string \<Rightarrow> app_state" where
  "initial_state home =
     \<lparr>capture_mode = ''window'', target_window_id = None, target_window_name = [],
      target_owner_name = [], region = None, retina_scale = 2,
      save_dir = home @ ''/Desktop/screenshots'', save_mode = ''folder'',
      is_running = False, capture_count = 0, mode = ''manual'', last_image = None,
      change_detected_time = None, auto_thread = None, status = StStopped,
      settling_time = Finite (1 / 2), polling_interval = Finite (1 / 5)\<rparr>"

section \<open>The environment and the trace\<close>

text \<open>
  What the operating system answers during one call or one polling iteration: the image
  a window or region capture yields (\<open>None\<close> when \<open>capture_window\<close> or
  \<open>capture_region\<close> returns \<open>None\<close>), whether \<open>image.save\<close> and the clipboard
  write succeed, whether \<open>mkdir\<close> succeeds, the clock, the listing of a directory
  (\<open>None\<close> when it does not exist), and the outcome of the interactive selection (the
  size of the captured file, \<open>None\<close> when it is missing or empty, and the mouse
  positions recorded meanwhile). The last field is what \<open>int\<close> answers on a text that
  holds a character outside ASCII (\<open>None\<close> when it raises): that part of the built-in
  rests on the Unicode tables of the interpreter and is taken as given.
\<close>

record env =
  window_shot :: "int \<Rightarrow> image option"
  region_shot :: "int \<times> int \<times> int \<times> int \<Rightarrow> image option"
  folder_write_ok :: bool
  clipboard_ok :: bool
  mkdir_ok :: bool
  now :: rat
  listdir :: "string \<Rightarrow> string list option"
  selection :: "(int \<times> int) option"
  positions :: "(int \<times> int) list"
  unicode_int :: "string \<Rightarrow> int option"

text \<open>The calls a function makes to its collaborators, in order.\<close>

datatype event =
    EvCapture
  | EvDetect
  | EvFileWrite string string image bool
  | EvClipboard image bool
  | EvSound
  | EvMkdir string bool
  | EvSpawnAutoLoop

section \<open>Sequence numbers and file names\<close>

text \<open>\<open>str(n)\<close> for a natural number, and the format \<open>{n:04d}\<close>.\<close>

definition digit_char :: "nat \<Rightarrow> char" where
  "digit_char d = char_of (48 + d)"

fun str_nat :: "nat \<Rightarrow> string" where
  "str_nat n = (if n < 10 then [digit_char n] else str_nat (n div 10) @ [digit_char (n mod 10)])"

declare str_nat.simps [simp del]

definition zero_pad :: "nat \<Rightarrow> string \<Rightarrow> string" where
  "zero_pad w s = replicate (w - length s) (CHR ''0'') @ s"

definition fmt_04d :: "int \<Rightarrow> string" where
  "fmt_04d n =
     (if n < 0 then CHR ''-'' # zero_pad 3 (str_nat (nat (- n)))
      else zero_pad 4 (str_nat (nat n)))"

definition slide_name :: "int \<Rightarrow> string" where
  "slide_name n = ''slide_'' @ fmt_04d n @ ''.png''"

text \<open>
  The glob \<open>slide_*.png\<close> on a file name, \<open>Path.stem\<close> and \<open>str.split\<close>. A name is a
  list of bytes, a character outside ASCII being the bytes of its UTF-8 encoding, none of
  which is an ASCII byte.
\<close>

definition matches_slide_glob :: "string \<Rightarrow> bool" where
  "matches_slide_glob name =
     (10 \<le> length name \<and> take 6 name = ''slide_'' \<and> drop (length name - 4) name = ''.png'')"

definition stem :: "string \<Rightarrow> string" where
  "stem name =
     (let after = takeWhile (\<lambda>c. c \<noteq> CHR ''.'') (rev name)
      in if CHR ''.'' \<in> set name \<and> after \<noteq> [] \<and> length after + 1 < length name
         then take (length name - length after - 1) name
         else name)"

fun split_on :: "char \<Rightarrow> string \<Rightarrow> string list" where
  "split_on sep [] = [[]]"
| "split_on sep (c # cs) =
     (if c = sep then [] # split_on sep cs
      else (case split_on sep cs of [] \<Rightarrow> [[c]] | p # ps \<Rightarrow> (c # p) # ps))"

text \<open>
  \<open>int(s)\<close> on ASCII text: white space (tab, line feed, vertical tab, form feed,
  carriage return, space) is stripped at both ends, a sign may follow, and the rest is
  decimal digits, where single underscores may stand between digits; leading zeros are
  accepted. Anything else raises \<open>ValueError\<close>, here \<open>None\<close>. (The limit of 4300 digits of
  recent interpreters is beyond the length of a file name.)
\<close>

definition is_ascii :: "char \<Rightarrow> bool" where
  "is_ascii c = ((of_char c :: nat) < 128)"

definition is_py_space :: "char \<Rightarrow> bool" where
  "is_py_space c = ((of_char c :: nat) \<in> {9, 10, 11, 12, 13, 32})"

definition is_digit :: "char \<Rightarrow> bool" where
  "is_digit c = (48 \<le> (of_char c :: nat) \<and> (of_char c :: nat) \<le> 57)"

definition digits_val :: "string \<Rightarrow> nat" where
  "digits_val s = foldl (\<lambda>a c. 10 * a + ((of_char c :: nat) - 48)) 0 s"

definition py_strip :: "string \<Rightarrow> string" where
  "py_strip s = rev (dropWhile is_py_space (rev (dropWhile is_py_space s)))"

fun underscores_single :: "string \<Rightarrow> bool" where
  "underscores_single (a # b # cs) =
     (\<not> (a = CHR ''_'' \<and> b = CHR ''_'') \<and> underscores_single (b # cs))"
| "underscores_single cs = True"

definition int_body_ok :: "string \<Rightarrow> bool" where
  "int_body_ok body =
     (body \<noteq> [] \<and> is_digit (hd body) \<and> is_digit (last body) \<and>
      list_all (\<lambda>c. is_digit c \<or> c = CHR ''_'') body \<and> underscores_single body)"

definition ascii_int :: "string \<Rightarrow> int option" where
  "ascii_int s =
     (let t = py_strip s;
          neg = (t \<noteq> [] \<and> hd t = CHR ''-'');
          body = (if t \<noteq> [] \<and> (hd t = CHR ''-'' \<or> hd t = CHR ''+'') then tl t else t)
      in if int_body_ok body
         then Some (if neg then - int (digits_val (filter is_digit body))
                    else int (digits_val (filter is_digit body)))
         else None)"

text \<open>\<open>int(s)\<close>: on ASCII text as above, on other text as the environment answers.\<close>

definition py_int :: "env \<Rightarrow> string \<Rightarrow> int option" where
  "py_int e s = (if list_all is_ascii s then ascii_int s else unicode_int e s)"

text \<open>
  One round of the loop of \<open>init_capture_count\<close>: \<open>int(f.stem.split("_")[1])\<close>, where a
  missing second part or a text that is no number raises and is passed over.
\<close>

definition seed_step :: "env \<Rightarrow> app_state \<Rightarrow> string \<Rightarrow> app_state" where
  "seed_step e st name =
     (case split_on (CHR ''_'') (stem name) of
        p0 # p1 # ps \<Rightarrow>
          (case py_int e p1 of
             None \<Rightarrow> st
           | Some num \<Rightarrow> st\<lparr>capture_count := max (capture_count st) num\<rparr>)
      | _ \<Rightarrow> st)"

definition init_capture_count :: "env \<Rightarrow> app_state \<Rightarrow> app_state" where
  "init_capture_count e st =
     (let st0 = st\<lparr>capture_count := 0\<rparr>
      in case listdir e (save_dir st0) of
           None \<Rightarrow> st0
         | Some names \<Rightarrow> foldl (seed_step e) st0 (filter matches_slide_glob names))"

text \<open>The number \<open>init_capture_count\<close> reads from a name, and those it reads from a listing.\<close>

definition name_number :: "env \<Rightarrow> string \<Rightarrow> int option" where
  "name_number e name =
     (case split_on (CHR ''_'') (stem name) of
        p0 # p1 # ps \<Rightarrow> py_int e p1
      | _ \<Rightarrow> None)"

definition parsed_numbers :: "env \<Rightarrow> string list \<Rightarrow> int list" where
  "parsed_numbers e names =
     concat (map (\<lambda>name. case name_number e name of None \<Rightarrow> [] | Some num \<Rightarrow> [num])
                 (filter matches_slide_glob names))"

section \<open>The persistence sink\<close>

text \<open>
  \<open>save_image\<close>. The counter assignment stands before the \<open>try\<close>; a failing
  \<open>image.save\<close> raises inside it, and the handler only prints.
\<close>

definition save_image :: "env \<Rightarrow> image \<Rightarrow> app_state \<Rightarrow> app_state \<times> event list" where
  "save_image e img st =
     (let st1 = st\<lparr>capture_count := capture_count st + 1\<rparr>;
          filename = slide_name (capture_count st1);
          to_folder = (save_mode st1 = ''folder'' \<or> save_mode st1 = ''both'');
          to_clipboard = (save_mode st1 = ''clipboard'' \<or> save_mode st1 = ''both'')
      in if to_folder \<and> \<not> folder_write_ok e
         then (st1, [EvFileWrite (save_dir st1) filename img False])
         else
           let parts1 = (if to_folder then [FolderPart filename] else []);
               evs1 = (if to_folder then [EvFileWrite (save_dir st1) filename img True] else []);
               parts2 = parts1 @
                 (if to_clipboard then [if clipboard_ok e then ClipCopied else ClipFailed]
                  else []);
               evs2 = evs1 @ (if to_clipboard then [EvClipboard img (clipboard_ok e)] else [])
           in (st1\<lparr>status := (if parts2 \<noteq> [] then StSaved parts2 else StSavedName filename)\<rparr>,
               evs2 @ [EvSound]))"

section \<open>The scheduler\<close>

definition truthy_id :: "int option \<Rightarrow> bool" where
  "truthy_id w = (case w of None \<Rightarrow> False | Some n \<Rightarrow> n \<noteq> 0)"

definition do_capture :: "env \<Rightarrow> app_state \<Rightarrow> image option \<times> event list" where
  "do_capture e st =
     (if capture_mode st = ''window'' \<and> truthy_id (target_window_id st)
      then (case target_window_id st of
              None \<Rightarrow> (None, [])
            | Some wid \<Rightarrow> (window_shot e wid, [EvCapture]))
      else if capture_mode st = ''region'' \<and> region st \<noteq> None
      then (case region st of
              None \<Rightarrow> (None, [])
            | Some r \<Rightarrow> (region_shot e r, [EvCapture]))
      else (None, []))"

definition manual_capture :: "env \<Rightarrow> app_state \<Rightarrow> app_state \<times> event list \<times> bool" where
  "manual_capture e st =
     (if \<not> is_running st then (st\<lparr>status := StPleaseStart\<rparr>, [], False)
      else if capture_mode st = ''window'' \<and> \<not> truthy_id (target_window_id st)
      then (st\<lparr>status := StWindowUnselected\<rparr>, [], False)
      else if capture_mode st = ''region'' \<and> region st = None
      then (st\<lparr>status := StRegionUnset\<rparr>, [], False)
      else
        (case do_capture e st of
           (Some img, evs) \<Rightarrow>
             (let (st1, sevs) = save_image e img st in (st1, evs @ sevs, True))
         | (None, evs) \<Rightarrow> (st\<lparr>status := StCaptureFailed\<rparr>, evs, False)))"

text \<open>
  The body of the loop of \<open>auto_monitor_loop\<close>. A timestamp counts as pending when it is
  a non-zero number (Python's truth value of a float). An exception of the change
  detector is caught by the loop and leaves the state as it was. Sleeping only lets
  the clock advance, which the environment of the next iteration reports.
\<close>

definition auto_iteration :: "env \<Rightarrow> app_state \<Rightarrow> app_state \<times> event list" where
  "auto_iteration e st =
     (case do_capture e st of
        (None, evs) \<Rightarrow> (st, evs)
      | (Some current_image, evs) \<Rightarrow>
          (case last_image st of
             None \<Rightarrow> (st\<lparr>last_image := Some current_image\<rparr>, evs)
           | Some last_img \<Rightarrow>
               (case images_different last_img current_image of
                  Inl exc \<Rightarrow> (st, evs @ [EvDetect])
                | Inr True \<Rightarrow>
                    (st\<lparr>change_detected_time := Some (now e), status := StChangeDetected,
                        last_image := Some current_image\<rparr>, evs @ [EvDetect])
                | Inr False \<Rightarrow>
                    (case change_detected_time st of
                       None \<Rightarrow> (st\<lparr>last_image := Some current_image\<rparr>, evs @ [EvDetect])
                     | Some t \<Rightarrow>
                         if t \<noteq> 0 \<and> ge_float (now e - t) (settling_time st)
                         then
                           (let (st1, sevs) = save_image e current_image st
                            in (st1\<lparr>change_detected_time := None,
                                     last_image := Some current_image\<rparr>,
                                evs @ [EvDetect] @ sevs))
                         else (st\<lparr>last_image := Some current_image\<rparr>, evs @ [EvDetect])))))"

text \<open>
  The sleep that ends an iteration. When no frame was captured the loop sleeps one second
  and continues; otherwise \<open>time.sleep(state.polling_interval)\<close> follows the \<open>try\<close>
  block, outside of it: an exception it raises ends the thread.
\<close>

definition iteration_sleep :: "env \<Rightarrow> app_state \<Rightarrow> app_state \<Rightarrow> py_exc option" where
  "iteration_sleep e st st1 =
     (case fst (do_capture e st) of
        None \<Rightarrow> None
      | Some current_image \<Rightarrow> sleep_error (polling_interval st1))"

text \<open>
  The loop, run for as many iterations as environments are given: the loop of the source
  has no bound of its own, and an environment is what one iteration observes. The third
  component is the exception that ended the thread, if one did.
\<close>

fun auto_monitor_loop :: "env list \<Rightarrow> app_state \<Rightarrow> app_state \<times> event list \<times> py_exc option" where
  "auto_monitor_loop [] st = (st, [], None)"
| "auto_monitor_loop (e # es) st =
     (if is_running st \<and> mode st = ''auto''
      then
        (let (st1, evs1) = auto_iteration e st
         in case iteration_sleep e st st1 of
              Some exc \<Rightarrow> (st1, evs1, Some exc)
            | None \<Rightarrow>
                (let (st2, evs2, exc) = auto_monitor_loop es st1
                 in (st2, evs1 @ evs2, exc)))
      else (st, [], None))"

text \<open>
  \<open>start_capture\<close>. After the two checks the running flag is set first; a failing
  \<open>mkdir\<close>, or the description of a region that is not there, raises after that.
\<close>

definition start_capture :: "env \<Rightarrow> app_state \<Rightarrow> app_state \<times> event list \<times> (py_exc + bool)" where
  "start_capture e st =
     (if capture_mode st = ''window'' \<and> \<not> truthy_id (target_window_id st)
      then (st\<lparr>status := StSelectWindowFirst\<rparr>, [], Inr False)
      else if capture_mode st = ''region'' \<and> region st = None
      then (st\<lparr>status := StSelectRegionFirst\<rparr>, [], Inr False)
      else
        let st1 = st\<lparr>is_running := True\<rparr> in
        if \<not> mkdir_ok e then (st1, [EvMkdir (save_dir st1) False], Inl OSError)
        else if capture_mode st1 \<noteq> ''window'' \<and> region st1 = None
        then (st1, [EvMkdir (save_dir st1) True], Inl TypeError)
        else if mode st1 = ''manual''
        then (st1\<lparr>status := StManualReady\<rparr>, [EvMkdir (save_dir st1) True], Inr True)
        else
          (st1\<lparr>last_image := None, change_detected_time := None, auto_thread := Some (),
               status := StMonitoring\<rparr>,
           [EvMkdir (save_dir st1) True, EvSpawnAutoLoop], Inr True))"

definition stop_capture :: "app_state \<Rightarrow> app_state" where
  "stop_capture st = st\<lparr>is_running := False, status := StStopped\<rparr>"

section \<open>The request handler\<close>

text \<open>
  \<open>interactive_select_region\<close>: the selection utility has run and the environment holds
  its outcome. \<open>//\<close> is floor division, as \<open>div\<close> on \<open>int\<close> is.
\<close>

definition interactive_select_region :: "env \<Rightarrow> app_state \<Rightarrow> app_state \<times> (py_exc + bool)" where
  "interactive_select_region e st =
     (case selection e of
        None \<Rightarrow> (st, Inr False)
      | Some (cap_w, cap_h) \<Rightarrow>
          let scale = retina_scale st in
          if scale = 0 then (st, Inl ZeroDivisionError)
          else
            let w = cap_w div scale;
                h = cap_h div scale;
                r = (if 2 \<le> length (positions e)
                     then (case last (positions e) of
                             (last_x, last_y) \<Rightarrow> (max 0 (last_x - w), max 0 (last_y - h), w, h))
                     else (100, 100, w, h))
            in (st\<lparr>region := Some r, capture_mode := ''region'',
                   status := (case r of (x, y, w', h') \<Rightarrow> StRegion x y w h)\<rparr>,
                Inr True))"

text \<open>
  The branches of \<open>do_GET\<close> that change a mode or the counter. A query parameter is
  \<open>None\<close> when the request does not carry it.
\<close>

datatype request =
    CaptureModeReq "string option"
  | SelectRegionReq
  | ModeReq "string option"
  | SaveModeReq "string option"
  | CaptureReq
  | ResetReq

definition query_get :: "string option \<Rightarrow> string \<Rightarrow> string" where
  "query_get q dflt = (case q of None \<Rightarrow> dflt | Some v \<Rightarrow> v)"

fun do_GET :: "env \<Rightarrow> request \<Rightarrow> app_state \<Rightarrow> app_state" where
  "do_GET e (CaptureModeReq q) st =
     (if \<not> is_running st then st\<lparr>capture_mode := query_get q ''window''\<rparr> else st)"
| "do_GET e SelectRegionReq st = fst (interactive_select_region e st)"
| "do_GET e (ModeReq q) st =
     (if \<not> is_running st then st\<lparr>mode := query_get q ''manual''\<rparr> else st)"
| "do_GET e (SaveModeReq q) st =
     (if \<not> is_running st
      then (let m = query_get q ''folder''
            in if m = ''folder'' \<or> m = ''clipboard'' \<or> m = ''both''
               then st\<lparr>save_mode := m\<rparr> else st)
      else st)"
| "do_GET e CaptureReq st = fst (manual_capture e st)"
| "do_GET e ResetReq st = st\<lparr>capture_count := 0\<rparr>"

section \<open>Vocabulary of the properties\<close>

text \<open>
  A stable run: every iteration captures a frame, and the change detector finds it not
  different from the frame before it.
\<close>

fun stable_run :: "app_state \<Rightarrow> image \<Rightarrow> env list \<Rightarrow> bool" where
  "stable_run st prev [] = True"
| "stable_run st prev (e # es) =
     (case fst (do_capture e st) of
        None \<Rightarrow> False
      | Some cur \<Rightarrow> images_different prev cur = Inr False \<and> stable_run st cur es)"

text \<open>
  An iteration is not due when no timestamp is pending (none is stored, or the stored
  one is zero) or the settling time has not yet passed since it.
\<close>

definition not_due :: "app_state \<Rightarrow> env \<Rightarrow> bool" where
  "not_due st e =
     (case change_detected_time st of
        None \<Rightarrow> True
      | Some t \<Rightarrow> t = 0 \<or> \<not> ge_float (now e - t) (settling_time st))"

text \<open>The files a trace has written, and the writes (to folder or clipboard) it attempted.\<close>

fun is_written_file :: "event \<Rightarrow> bool" where
  "is_written_file (EvFileWrite d f i ok) = ok"
| "is_written_file ev = False"

fun is_write_attempt :: "event \<Rightarrow> bool" where
  "is_write_attempt (EvFileWrite d f i ok) = True"
| "is_write_attempt (EvClipboard i ok) = True"
| "is_write_attempt ev = False"

fun is_clipboard_write :: "event \<Rightarrow> bool" where
  "is_clipboard_write (EvClipboard i ok) = True"
| "is_clipboard_write ev = False"

definition files_written :: "event list \<Rightarrow> nat" where
  "files_written evs = length (filter is_written_file evs)"

text \<open>
  The calls of \<open>save_image\<close> in a trace: each ends with the sound, or with the folder
  write that failed.
\<close>

fun ends_save :: "event \<Rightarrow> bool" where
  "ends_save EvSound = True"
| "ends_save (EvFileWrite d f i ok) = (\<not> ok)"
| "ends_save ev = False"

definition saves :: "event list \<Rightarrow> nat" where
  "saves evs = length (filter ends_save evs)"

definition target_missing :: "app_state \<Rightarrow> bool" where
  "target_missing st =
     (capture_mode st = ''window'' \<and> \<not> truthy_id (target_window_id st) \<or>
      capture_mode st = ''region'' \<and> region st = None)"

section \<open>Example frames, states and environments\<close>

definition quiet_env :: env where
  "quiet_env =
     \<lparr>window_shot = (\<lambda>w. None), region_shot = (\<lambda>r. None), folder_write_ok = True,
      clipboard_ok = True, mkdir_ok = True, now = 1000, listdir = (\<lambda>d. None),
      selection = None, positions = [], unicode_int = (\<lambda>s. None)\<rparr>"

definition window_state :: app_state where
  "window_state =
     (initial_state ''/Users/u'')\<lparr>target_window_id := Some 7, target_owner_name := ''Keynote''\<rparr>"

text \<open>An environment in which every capture of a window yields the black frame.\<close>

definition black_env :: env where
  "black_env = quiet_env\<lparr>window_shot := (\<lambda>w. Some black1)\<rparr>"

text \<open>
  A running auto session on that window whose last frame is black, a red frame, and an
  environment that reports the red frame at a given time.
\<close>

definition red1 :: image where
  "red1 = \<lparr>width = 1, height = 1, pixels = [(255, 0, 0)]\<rparr>"

definition auto_state :: app_state where
  "auto_state = window_state\<lparr>is_running := True, mode := ''auto'', last_image := Some black1\<rparr>"

text \<open>The same session saving to the clipboard only.\<close>

definition clip_state :: app_state where
  "clip_state = auto_state\<lparr>save_mode := ''clipboard''\<rparr>"

definition red_env :: "rat \<Rightarrow> env" where
  "red_env t = quiet_env\<lparr>window_shot := (\<lambda>w. Some red1), now := t\<rparr>"

text \<open>A listing of a save directory left by an earlier session.\<close>

definition old_listing :: "string list" where
  "old_listing = [''slide_0003.png'', ''slide_x.png'', ''notes.txt'', ''slide_0010.png'']"

definition listing_env :: env where
  "listing_env = quiet_env\<lparr>listdir := (\<lambda>d. Some old_listing)\<rparr>"

section \<open>The change detector reads one band\<close>

lemma count_values_nonzero:
  "sum_list (map (\<lambda>i. length (filter (\<lambda>x. unat x = i) vs)) [Suc 0..<256]) =
   length (filter (\<lambda>x. x \<noteq> 0) (vs :: 8 word list))"
proof (induction vs)
  case Nil
  show ?case by simp
next
  case (Cons v vs)
  have bound: "unat v < 256"
    using unsigned_less [of v] by simp
  have single: "(\<Sum>i = Suc 0..<256. if unat v = i then 1 else 0) = (if v \<noteq> 0 then 1 else (0::nat))"
  proof (cases "v = 0")
    case True
    then show ?thesis by simp
  next
    case False
    then have "Suc 0 \<le> unat v" by (simp add: Suc_le_eq unat_gt_0)
    with bound False show ?thesis by simp
  qed
  have "sum_list (map (\<lambda>i. length (filter (\<lambda>x. unat x = i) (v # vs))) [Suc 0..<256]) =
        (\<Sum>i = Suc 0..<256. (if unat v = i then 1 else 0) + length (filter (\<lambda>x. unat x = i) vs))"
    unfolding interv_sum_list_conv_sum_set_nat
    by (intro sum.cong) auto
  also have "\<dots> = (if v \<noteq> 0 then 1 else 0) + (\<Sum>i = Suc 0..<256. length (filter (\<lambda>x. unat x = i) vs))"
    by (simp only: sum.distrib single)
  also have "\<dots> = length (filter (\<lambda>x. x \<noteq> 0) (v # vs))"
    using Cons.IH by (simp add: interv_sum_list_conv_sum_set_nat)
  finally show ?case .
qed

lemma histogram_red_part:
  "i < 256 \<Longrightarrow> histogram im ! i = length (filter (\<lambda>x. unat x = i) (map red (pixels im)))"
  by (simp add: histogram_def band_histogram_def nth_append)

lemma non_zero_is_red_count:
  "sum_list (map (\<lambda>i. histogram im ! i) [Suc 0..<256]) =
   length (filter (\<lambda>p. red p \<noteq> 0) (pixels im))"
proof -
  have "map (\<lambda>i. histogram im ! i) [Suc 0..<256] =
        map (\<lambda>i. length (filter (\<lambda>x. unat x = i) (map red (pixels im)))) [Suc 0..<256]"
    by (rule map_cong) (simp_all add: histogram_red_part)
  then have "sum_list (map (\<lambda>i. histogram im ! i) [Suc 0..<256]) =
        length (filter (\<lambda>x. x \<noteq> 0) (map red (pixels im)))"
    by (simp only: count_values_nonzero)
  then show ?thesis
    by (simp add: filter_map comp_def)
qed

lemma images_different_red_only:
  assumes "img_size img1 = img_size img2" and "0 < width img1 * height img1"
  shows "images_different img1 img2 =
         Inr (200 * length (filter (\<lambda>p. red p \<noteq> 0) (pixels (difference img1 img2)))
              > width img1 * height img1 * 3)"
proof -
  let ?n = "length (filter (\<lambda>p. red p \<noteq> 0) (pixels (difference img1 img2)))"
  let ?t = "width img1 * height img1 * 3"
  have pos: "0 < (of_nat ?t :: rat)" using assms(2) by simp
  have "((of_nat ?n / of_nat ?t) * 100 > (1 / 2 :: rat)) = (of_nat ?t < (of_nat (200 * ?n) :: rat))"
    using pos by (simp add: field_simps)
  also have "\<dots> = (?t < 200 * ?n)"
    by (simp only: of_nat_less_iff)
  finally have cmp: "((of_nat ?n / of_nat ?t) * 100 > (1 / 2 :: rat)) = (?t < 200 * ?n)" .
  have "images_different img1 img2 = Inr ((of_nat ?n / of_nat ?t) * 100 > (1 / 2 :: rat))"
    using assms
    by (simp add: images_different_def Let_def non_zero_is_red_count DIFF_THRESHOLD_def)
  then show ?thesis
    by (simp only: cmp)
qed

text \<open>
  Claim C1. The detector is to report a change exactly when the share of non-zero samples
  of the difference image, counted over all three colour bands, exceeds 0.5 percent. The
  sum over \<open>range(1, 256)\<close> reads only the red band of the histogram, while the division
  is by three bands: two one-pixel frames that differ only in the green band have a
  difference of one sample in three, far above the threshold, and the detector answers
  that they are not different.
\<close>

theorem images_different_misses_green_change:
  "images_different black1 green1 = Inr False \<and> diff_percentage black1 green1 = 100 / 3
   \<and> DIFF_THRESHOLD < diff_percentage black1 green1"
proof -
  have a: "images_different black1 green1 = Inr False"
    by (simp add: images_different_red_only img_size_def black1_def green1_def difference_def
        abs_diff_def)
  have b: "diff_percentage black1 green1 = 100 / 3"
    by (simp add: diff_percentage_def nonzero_samples_def black1_def green1_def difference_def
        abs_diff_def)
  from a b show ?thesis by (simp add: DIFF_THRESHOLD_def)
qed

text \<open>
  Claim C6. When the configured target is absent (window mode without a window id, or
  region mode without a rectangle), \<open>start_capture\<close> returns \<open>False\<close>, sets the
  explanatory status, leaves the running flag as it was and changes no other field of
  the session state; it calls no collaborator.
\<close>

theorem start_capture_without_target:
  assumes "target_missing st"
  shows "start_capture e st =
           (st\<lparr>status := (if capture_mode st = ''window'' then StSelectWindowFirst
                           else StSelectRegionFirst)\<rparr>, [], Inr False)
       \<and> is_running (fst (start_capture e st)) = is_running st"
  using assms by (auto simp: target_missing_def start_capture_def)

theorem start_capture_without_target_witness:
  "target_missing (initial_state ''/Users/u'')
   \<and> start_capture quiet_env (initial_state ''/Users/u'') =
       ((initial_state ''/Users/u'')\<lparr>status := StSelectWindowFirst\<rparr>, [], Inr False)"
proof -
  have h: "target_missing (initial_state ''/Users/u'')"
    by (simp add: target_missing_def initial_state_def truthy_id_def)
  from start_capture_without_target [OF h, of quiet_env] h show ?thesis
    by (simp add: initial_state_def)
qed

lemma do_capture_none_events:
  "target_missing st \<Longrightarrow> do_capture e st = (None, [])"
  by (auto simp: target_missing_def do_capture_def)

text \<open>
  Claim C10. When a manual capture is attempted and the capture source yields no image,
  \<open>manual_capture\<close> returns \<open>False\<close> and changes only the status: the counter, the
  last frame and the running flag stay as they were.
\<close>

theorem manual_capture_no_image:
  assumes "is_running st" and "fst (do_capture e st) = None"
  shows "manual_capture e st =
           (st\<lparr>status := (if capture_mode st = ''window'' \<and> \<not> truthy_id (target_window_id st)
                           then StWindowUnselected
                           else if capture_mode st = ''region'' \<and> region st = None
                           then StRegionUnset else StCaptureFailed)\<rparr>,
            snd (do_capture e st), False)
       \<and> capture_count (fst (manual_capture e st)) = capture_count st
       \<and> last_image (fst (manual_capture e st)) = last_image st
       \<and> is_running (fst (manual_capture e st)) = is_running st"
proof (cases "target_missing st")
  case True
  from do_capture_none_events [OF True] have "snd (do_capture e st) = []" by simp
  with True assms(1) show ?thesis
    by (auto simp: manual_capture_def target_missing_def)
next
  case False
  obtain evs where "do_capture e st = (None, evs)"
    using assms(2) by (cases "do_capture e st") simp
  with False assms(1) show ?thesis
    by (auto simp: manual_capture_def target_missing_def)
qed

theorem manual_capture_no_image_witness:
  "is_running (window_state\<lparr>is_running := True\<rparr>)
   \<and> fst (do_capture quiet_env (window_state\<lparr>is_running := True\<rparr>)) = None
   \<and> manual_capture quiet_env (window_state\<lparr>is_running := True\<rparr>) =
       (window_state\<lparr>is_running := True, status := StCaptureFailed\<rparr>, [EvCapture], False)"
proof -
  have h1: "is_running (window_state\<lparr>is_running := True\<rparr>)" by simp
  have h2: "fst (do_capture quiet_env (window_state\<lparr>is_running := True\<rparr>)) = None"
    by (simp add: do_capture_def window_state_def initial_state_def truthy_id_def quiet_env_def)
  from manual_capture_no_image [OF h1 h2] h1 h2 show ?thesis
    by (simp add: do_capture_def window_state_def initial_state_def truthy_id_def quiet_env_def)
qed

section \<open>The persistence sink: numbering and channels\<close>

lemma slide_name_1: "slide_name 1 = ''slide_0001.png''"
  by code_simp

lemma digit_char_code: "d < 10 \<Longrightarrow> (of_char (digit_char d) :: nat) = 48 + d"
  by (simp add: digit_char_def)

lemma digit_char_is_digit: "d < 10 \<Longrightarrow> is_digit (digit_char d)"
  by (simp add: is_digit_def digit_char_code)

lemma digit_char_0: "digit_char 0 = CHR ''0''"
  by code_simp

lemma str_nat_digits: "list_all is_digit (str_nat n)"
proof (induction n rule: str_nat.induct)
  case (1 n)
  show ?case
  proof (cases "n < 10")
    case True
    then show ?thesis by (simp add: str_nat.simps [of n] digit_char_is_digit)
  next
    case False
    with 1 show ?thesis by (simp add: str_nat.simps [of n] digit_char_is_digit)
  qed
qed

lemma str_nat_nonempty: "str_nat n \<noteq> []"
  by (simp add: str_nat.simps [of n])

lemma digits_val_snoc: "digits_val (xs @ [c]) = 10 * digits_val xs + ((of_char c :: nat) - 48)"
  by (simp add: digits_val_def)

lemma digits_val_str_nat: "digits_val (str_nat n) = n"
proof (induction n rule: str_nat.induct)
  case (1 n)
  show ?case
  proof (cases "n < 10")
    case True
    then show ?thesis by (simp add: str_nat.simps [of n] digits_val_def digit_char_code)
  next
    case False
    then have "digits_val (str_nat n) = 10 * digits_val (str_nat (n div 10)) + n mod 10"
      by (simp add: str_nat.simps [of n] digits_val_snoc digit_char_code)
    with 1 False show ?thesis by simp
  qed
qed

lemma digits_val_zeros: "digits_val (replicate k (CHR ''0'') @ s) = digits_val s"
proof -
  have "foldl (\<lambda>a c. 10 * a + ((of_char c :: nat) - 48)) 0 (replicate k (CHR ''0'')) = 0"
    by (induction k) simp_all
  then show ?thesis by (simp add: digits_val_def)
qed

lemma fmt_04d_digits:
  assumes "0 \<le> n"
  shows "list_all is_digit (fmt_04d n)" and "fmt_04d n \<noteq> []"
    and "digits_val (fmt_04d n) = nat n"
  using assms
proof -
  have z: "is_digit (CHR ''0'')"
    using digit_char_is_digit [of 0] by (simp add: digit_char_0)
  show "list_all is_digit (fmt_04d n)"
    using assms str_nat_digits [of "nat n"] z
    by (auto simp: fmt_04d_def zero_pad_def list_all_iff)
  show "fmt_04d n \<noteq> []"
    using assms by (simp add: fmt_04d_def zero_pad_def str_nat_nonempty)
  show "digits_val (fmt_04d n) = nat n"
    using assms by (simp add: fmt_04d_def zero_pad_def digits_val_zeros digits_val_str_nat)
qed

lemma fmt_04d_length: "0 \<le> n \<Longrightarrow> 4 \<le> length (fmt_04d n)"
  by (simp add: fmt_04d_def zero_pad_def)

lemma str_nat_small:
  assumes "m < 10000"
  shows "zero_pad 4 (str_nat m) =
         [digit_char (m div 1000), digit_char (m div 100 mod 10), digit_char (m div 10 mod 10),
          digit_char (m mod 10)]"
proof -
  consider "m < 10" | "10 \<le> m" "m < 100" | "100 \<le> m" "m < 1000" | "1000 \<le> m"
    by linarith
  then show ?thesis
  proof cases
    case 1
    then show ?thesis
      by (simp add: str_nat.simps [of m] zero_pad_def digit_char_0 numeral_3_eq_3)
  next
    case 2
    then have a: "m div 10 < 10" "\<not> m < 10" by simp_all
    have "str_nat m = [digit_char (m div 10), digit_char (m mod 10)]"
      using a by (simp add: str_nat.simps [of m] str_nat.simps [of "m div 10"])
    moreover have "m div 1000 = 0" "m div 100 = 0" "m div 10 mod 10 = m div 10"
      using 2 a by simp_all
    ultimately show ?thesis
      by (simp add: zero_pad_def digit_char_0 numeral_2_eq_2)
  next
    case 3
    then have a: "\<not> m < 10" "\<not> m div 10 < 10" "m div 10 div 10 < 10" by simp_all
    have "str_nat m = [digit_char (m div 10 div 10), digit_char (m div 10 mod 10), digit_char (m mod 10)]"
      using a
      by (simp add: str_nat.simps [of m] str_nat.simps [of "m div 10"]
          str_nat.simps [of "m div 10 div 10"])
    moreover have "m div 1000 = 0" "m div 100 mod 10 = m div 10 div 10"
      using 3 a by (simp_all add: div_mult2_eq [symmetric])
    ultimately show ?thesis
      by (simp add: zero_pad_def digit_char_0 numeral_2_eq_2)
  next
    case 4
    with assms have a: "\<not> m < 10" "\<not> m div 10 < 10" "\<not> m div 10 div 10 < 10"
      "m div 10 div 10 div 10 < 10" by simp_all
    have "str_nat m = [digit_char (m div 10 div 10 div 10), digit_char (m div 10 div 10 mod 10),
        digit_char (m div 10 mod 10), digit_char (m mod 10)]"
      using a
      by (simp add: str_nat.simps [of m] str_nat.simps [of "m div 10"]
          str_nat.simps [of "m div 10 div 10"] str_nat.simps [of "m div 10 div 10 div 10"])
    moreover have "m div 1000 = m div 10 div 10 div 10" "m div 100 mod 10 = m div 10 div 10 mod 10"
      by (simp_all add: div_mult2_eq [symmetric])
    ultimately show ?thesis
      by (simp add: zero_pad_def)
  qed
qed

lemma slide_name_four_digits:
  assumes "0 \<le> n" and "n < 10000"
  shows "slide_name n =
         ''slide_'' @
         [char_of (48 + nat n div 1000), char_of (48 + nat n div 100 mod 10),
          char_of (48 + nat n div 10 mod 10), char_of (48 + nat n mod 10)] @ ''.png''"
proof -
  from assms have "nat n < 10000" by simp
  from str_nat_small [OF this] assms(1) show ?thesis
    by (simp add: slide_name_def fmt_04d_def digit_char_def)
qed

lemma is_digit_not_special:
  assumes "is_digit c"
  shows "c \<noteq> CHR ''.''" "c \<noteq> CHR ''_''" "c \<noteq> CHR ''-''" "c \<noteq> CHR ''+''"
    "\<not> is_py_space c" "is_ascii c"
proof -
  show "c \<noteq> CHR ''.''" using assms by (auto simp: is_digit_def)
  show "c \<noteq> CHR ''_''" using assms by (auto simp: is_digit_def)
  show "c \<noteq> CHR ''-''" using assms by (auto simp: is_digit_def)
  show "c \<noteq> CHR ''+''" using assms by (auto simp: is_digit_def)
  show "\<not> is_py_space c" using assms by (auto simp: is_digit_def is_py_space_def)
  show "is_ascii c" using assms by (simp add: is_digit_def is_ascii_def)
qed

lemma split_no_sep: "sep \<notin> set ds \<Longrightarrow> split_on sep ds = [ds]"
proof (induction ds)
  case Nil
  show ?case by simp
next
  case (Cons a ds)
  then have "a \<noteq> sep" and "split_on sep ds = [ds]" by auto
  then show ?case by simp
qed

lemma drop_own_length: "drop (length xs) (xs @ ys) = ys"
  by simp

lemma underscores_single_digits: "list_all is_digit ds \<Longrightarrow> underscores_single ds"
proof (induction ds rule: underscores_single.induct)
  case (1 a b cs)
  then have "is_digit a" by simp
  then have "a \<noteq> CHR ''_''" by (rule is_digit_not_special(2))
  with 1 show ?case by simp
qed simp_all

lemma ascii_int_digits:
  assumes "ds \<noteq> []" and "list_all is_digit ds"
  shows "ascii_int ds = Some (int (digits_val ds))"
proof -
  from assms have h: "is_digit (hd ds)" and l: "is_digit (last ds)"
    by (simp_all add: list_all_iff)
  have "dropWhile is_py_space ds = ds"
    using assms(1) is_digit_not_special(5) [OF h] by (simp add: dropWhile_eq_self_iff)
  moreover have "dropWhile is_py_space (rev ds) = rev ds"
    using assms(1) is_digit_not_special(5) [OF l] by (simp add: dropWhile_eq_self_iff hd_rev)
  ultimately have strip: "py_strip ds = ds"
    by (simp add: py_strip_def)
  have body: "int_body_ok ds"
    using assms h l
    by (simp add: int_body_ok_def underscores_single_digits list_all_iff)
  have f: "filter is_digit ds = ds"
    using assms(2) by (simp add: list_all_iff)
  show ?thesis
    using is_digit_not_special(3,4) [OF h] body assms(1)
    by (simp add: ascii_int_def strip f)
qed

lemma stem_slide:
  assumes "CHR ''.'' \<notin> set ds"
  shows "stem (''slide_'' @ ds @ ''.png'') = ''slide_'' @ ds"
proof -
  have "takeWhile (\<lambda>c. c \<noteq> CHR ''.'') (rev (''slide_'' @ ds @ ''.png'')) = ''gnp''"
    by simp
  then show ?thesis
    by (simp add: stem_def)
qed

lemma not_digit_chars: "\<not> is_digit (CHR ''.'')" "\<not> is_digit (CHR ''_'')"
  by (simp_all add: is_digit_def)

lemma name_number_slide:
  assumes "0 \<le> n"
  shows "name_number e (slide_name n) = Some n"
proof -
  let ?ds = "fmt_04d n"
  note d = fmt_04d_digits [OF assms]
  have nodot: "CHR ''.'' \<notin> set ?ds"
    using d(1) not_digit_chars(1) by (auto simp: list_all_iff)
  have nous: "CHR ''_'' \<notin> set ?ds"
    using d(1) not_digit_chars(2) by (auto simp: list_all_iff)
  have asc: "list_all is_ascii ?ds"
    using d(1) by (simp add: list_all_iff is_digit_not_special(6))
  have "stem (slide_name n) = ''slide_'' @ ?ds"
    unfolding slide_name_def by (rule stem_slide [OF nodot])
  moreover have "split_on (CHR ''_'') (''slide_'' @ ?ds) = [''slide'', ?ds]"
    by (simp add: split_no_sep [OF nous])
  ultimately have sp: "split_on (CHR ''_'') (stem (slide_name n)) = [''slide'', ?ds]"
    by (simp only:)
  have "ascii_int ?ds = Some (int (nat n))"
    using ascii_int_digits [OF d(2) d(1)] by (simp only: d(3))
  then have "py_int e ?ds = Some n"
    using asc assms by (simp add: py_int_def)
  then show ?thesis
    by (simp add: name_number_def sp)
qed

lemma glob_slide: "matches_slide_glob (slide_name n)"
proof -
  let ?ds = "fmt_04d n"
  have "drop (length (''slide_'' @ ?ds)) ((''slide_'' @ ?ds) @ ''.png'') = ''.png''"
    by (rule drop_own_length)
  moreover have "length (''slide_'' @ ?ds @ ''.png'') - 4 = length (''slide_'' @ ?ds)"
    by simp
  ultimately have "drop (length (''slide_'' @ ?ds @ ''.png'') - 4) (''slide_'' @ ?ds @ ''.png'') = ''.png''"
    by (simp only: append_assoc)
  then show ?thesis
    by (simp add: matches_slide_glob_def slide_name_def)
qed

lemma slide_name_inj:
  assumes "0 \<le> m" and "0 \<le> n" and "slide_name m = slide_name n"
  shows "m = n"
proof -
  have "name_number quiet_env (slide_name m) = name_number quiet_env (slide_name n)"
    by (simp only: assms(3))
  with assms(1,2) show ?thesis by (simp add: name_number_slide)
qed

lemma save_image_count: "capture_count (fst (save_image e img st)) = capture_count st + 1"
  by (simp add: save_image_def Let_def)

text \<open>
  Claim C8. Every call of \<open>save_image\<close> adds exactly 1 to the counter before any write:
  every file write of the call, successful or not, carries the name
  \<open>slide_{counter:04d}.png\<close> of the incremented value, and when the folder is a
  destination that write is the first call made. The counter of the resulting state is
  the incremented one whether or not the writes succeed. The name is \<open>slide_\<close>, at
  least four decimal digits whose value is the incremented counter (exactly its four
  digits below 10000), and \<open>.png\<close>; no other value of the counter gives the same name.
\<close>

theorem save_image_increments_first:
  "capture_count (fst (save_image e img st)) = capture_count st + 1
   \<and> (\<forall>d f i ok. EvFileWrite d f i ok \<in> set (snd (save_image e img st)) \<longrightarrow>
         f = slide_name (capture_count st + 1))
   \<and> ((save_mode st = ''folder'' \<or> save_mode st = ''both'') \<longrightarrow>
         hd (snd (save_image e img st)) =
           EvFileWrite (save_dir st) (slide_name (capture_count st + 1)) img (folder_write_ok e))
   \<and> (0 \<le> capture_count st \<and> capture_count st + 1 < 10000 \<longrightarrow>
         slide_name (capture_count st + 1) =
           ''slide_'' @
           [char_of (48 + nat (capture_count st + 1) div 1000),
            char_of (48 + nat (capture_count st + 1) div 100 mod 10),
            char_of (48 + nat (capture_count st + 1) div 10 mod 10),
            char_of (48 + nat (capture_count st + 1) mod 10)] @ ''.png'')
   \<and> (0 \<le> capture_count st \<longrightarrow>
         (\<exists>ds. slide_name (capture_count st + 1) = ''slide_'' @ ds @ ''.png'' \<and> 4 \<le> length ds \<and>
               list_all is_digit ds \<and> int (digits_val ds) = capture_count st + 1))
   \<and> (\<forall>m. 0 \<le> m \<and> 0 \<le> capture_count st \<and> slide_name m = slide_name (capture_count st + 1) \<longrightarrow>
         m = capture_count st + 1)"
proof -
  have a: "\<forall>d f i ok. EvFileWrite d f i ok \<in> set (snd (save_image e img st)) \<longrightarrow>
         f = slide_name (capture_count st + 1)"
    by (auto simp: save_image_def Let_def split: if_splits)
  have b: "(save_mode st = ''folder'' \<or> save_mode st = ''both'') \<longrightarrow>
         hd (snd (save_image e img st)) =
           EvFileWrite (save_dir st) (slide_name (capture_count st + 1)) img (folder_write_ok e)"
    by (auto simp: save_image_def Let_def split: if_splits)
  have c: "0 \<le> capture_count st \<and> capture_count st + 1 < 10000 \<longrightarrow>
         slide_name (capture_count st + 1) =
           ''slide_'' @
           [char_of (48 + nat (capture_count st + 1) div 1000),
            char_of (48 + nat (capture_count st + 1) div 100 mod 10),
            char_of (48 + nat (capture_count st + 1) div 10 mod 10),
            char_of (48 + nat (capture_count st + 1) mod 10)] @ ''.png''"
  proof
    assume h: "0 \<le> capture_count st \<and> capture_count st + 1 < 10000"
    then have "0 \<le> capture_count st + 1" by simp
    then show "slide_name (capture_count st + 1) =
           ''slide_'' @
           [char_of (48 + nat (capture_count st + 1) div 1000),
            char_of (48 + nat (capture_count st + 1) div 100 mod 10),
            char_of (48 + nat (capture_count st + 1) div 10 mod 10),
            char_of (48 + nat (capture_count st + 1) mod 10)] @ ''.png''"
      using h by (intro slide_name_four_digits) simp_all
  qed
  have d: "\<forall>m. 0 \<le> m \<and> 0 \<le> capture_count st \<and> slide_name m = slide_name (capture_count st + 1) \<longrightarrow>
         m = capture_count st + 1"
  proof (intro allI impI, elim conjE)
    fix m
    assume h: "0 \<le> m" "0 \<le> capture_count st" "slide_name m = slide_name (capture_count st + 1)"
    from h(2) have "0 \<le> capture_count st + 1" by simp
    from slide_name_inj [OF h(1) this h(3)] show "m = capture_count st + 1" .
  qed
  have g: "0 \<le> capture_count st \<longrightarrow>
         (\<exists>ds. slide_name (capture_count st + 1) = ''slide_'' @ ds @ ''.png'' \<and> 4 \<le> length ds \<and>
               list_all is_digit ds \<and> int (digits_val ds) = capture_count st + 1)"
  proof
    assume "0 \<le> capture_count st"
    then have n: "0 \<le> capture_count st + 1" by simp
    have "slide_name (capture_count st + 1) = ''slide_'' @ fmt_04d (capture_count st + 1) @ ''.png''
        \<and> 4 \<le> length (fmt_04d (capture_count st + 1))
        \<and> list_all is_digit (fmt_04d (capture_count st + 1))
        \<and> int (digits_val (fmt_04d (capture_count st + 1))) = capture_count st + 1"
      using n fmt_04d_digits(1,3) [OF n] by (simp add: slide_name_def fmt_04d_length)
    then show "\<exists>ds. slide_name (capture_count st + 1) = ''slide_'' @ ds @ ''.png'' \<and> 4 \<le> length ds \<and>
               list_all is_digit ds \<and> int (digits_val ds) = capture_count st + 1"
      by (rule exI)
  qed
  show ?thesis
    by (rule conjI [OF save_image_count conjI [OF a conjI [OF b conjI [OF c conjI [OF g d]]]]])
qed

lemma slide_0042: "''slide_'' @
           [char_of (48 + nat (41 + 1) div 1000),
            char_of (48 + nat (41 + 1) div 100 mod 10),
            char_of (48 + nat (41 + 1) div 10 mod 10),
            char_of (48 + nat (41 + 1) mod 10)] @ ''.png'' = ''slide_0042.png''"
  by code_simp

theorem save_image_increments_first_witness:
  "save_mode (window_state\<lparr>capture_count := 41\<rparr>) = ''folder''
   \<and> 0 \<le> capture_count (window_state\<lparr>capture_count := 41\<rparr>)
   \<and> capture_count (window_state\<lparr>capture_count := 41\<rparr>) + 1 < 10000
   \<and> capture_count (fst (save_image (quiet_env\<lparr>folder_write_ok := False\<rparr>) black1
         (window_state\<lparr>capture_count := 41\<rparr>))) = 42
   \<and> hd (snd (save_image (quiet_env\<lparr>folder_write_ok := False\<rparr>) black1
         (window_state\<lparr>capture_count := 41\<rparr>))) =
       EvFileWrite ''/Users/u/Desktop/screenshots'' ''slide_0042.png'' black1 False"
proof -
  let ?s = "window_state\<lparr>capture_count := 41\<rparr>"
  let ?e = "quiet_env\<lparr>folder_write_ok := False\<rparr>"
  note t = save_image_increments_first [of ?e black1 ?s]
  have h1: "save_mode ?s = ''folder''"
    by (simp add: window_state_def initial_state_def)
  have h2: "0 \<le> capture_count ?s" and h3: "capture_count ?s + 1 < 10000" by simp_all
  have dir: "save_dir ?s = ''/Users/u/Desktop/screenshots''"
    by (simp add: window_state_def initial_state_def)
  have fw: "folder_write_ok ?e = False" by simp
  have cnt: "capture_count ?s = 41" by simp
  have a: "capture_count (fst (save_image ?e black1 ?s)) = 42"
    using t [THEN conjunct1] by (simp only: cnt)
  have "slide_name (capture_count ?s + 1) =
           ''slide_'' @
           [char_of (48 + nat (capture_count ?s + 1) div 1000),
            char_of (48 + nat (capture_count ?s + 1) div 100 mod 10),
            char_of (48 + nat (capture_count ?s + 1) div 10 mod 10),
            char_of (48 + nat (capture_count ?s + 1) mod 10)] @ ''.png''"
    by (rule mp [OF t [THEN conjunct2, THEN conjunct2, THEN conjunct2, THEN conjunct1]])
       (rule conjI [OF h2 h3])
  then have nm: "slide_name (capture_count ?s + 1) = ''slide_0042.png''"
    by (simp only: cnt slide_0042)
  have "hd (snd (save_image ?e black1 ?s)) =
           EvFileWrite (save_dir ?s) (slide_name (capture_count ?s + 1)) black1 (folder_write_ok ?e)"
    by (rule mp [OF t [THEN conjunct2, THEN conjunct2, THEN conjunct1]]) (rule disjI1 [OF h1])
  then have b: "hd (snd (save_image ?e black1 ?s)) =
       EvFileWrite ''/Users/u/Desktop/screenshots'' ''slide_0042.png'' black1 False"
    by (simp only: nm dir fw)
  show ?thesis
    by (rule conjI [OF h1 conjI [OF h2 conjI [OF h3 conjI [OF a b]]]])
qed

text \<open>
  Claim C7, as stated: with the save mode \<open>both\<close>, a failing folder write still lets the
  clipboard write be attempted. The two writes share one \<open>try\<close> block: at a failing
  folder write the call makes no clipboard write at all.
\<close>

theorem save_image_both_folder_failure:
  "save_mode (window_state\<lparr>save_mode := ''both''\<rparr>) = ''both''
   \<and> \<not> folder_write_ok (quiet_env\<lparr>folder_write_ok := False\<rparr>)
   \<and> filter is_clipboard_write
        (snd (save_image (quiet_env\<lparr>folder_write_ok := False\<rparr>) black1
               (window_state\<lparr>save_mode := ''both''\<rparr>))) = []"
  by (simp add: save_image_def Let_def window_state_def initial_state_def quiet_env_def)

text \<open>
  Claim C7, amended. With the save mode \<open>both\<close> the counter advances in every case.
  When the folder write succeeds, the clipboard write is attempted after it, its failure
  leaves the file written and is reported in the status beside the file name, and the
  sound is played. When the folder write fails, the call ends there: no clipboard write,
  no sound, and the status keeps its former text.
\<close>

theorem save_image_both_channels:
  assumes "save_mode st = ''both''"
  shows "capture_count (fst (save_image e img st)) = capture_count st + 1
       \<and> (folder_write_ok e \<longrightarrow>
            snd (save_image e img st) =
              [EvFileWrite (save_dir st) (slide_name (capture_count st + 1)) img True,
               EvClipboard img (clipboard_ok e), EvSound]
            \<and> status (fst (save_image e img st)) =
                StSaved [FolderPart (slide_name (capture_count st + 1)),
                         if clipboard_ok e then ClipCopied else ClipFailed])
       \<and> (\<not> folder_write_ok e \<longrightarrow>
            snd (save_image e img st) =
              [EvFileWrite (save_dir st) (slide_name (capture_count st + 1)) img False]
            \<and> status (fst (save_image e img st)) = status st)"
  using assms by (simp add: save_image_def Let_def)

theorem save_image_both_channels_witness:
  "save_mode (window_state\<lparr>save_mode := ''both''\<rparr>) = ''both''
   \<and> folder_write_ok (quiet_env\<lparr>clipboard_ok := False\<rparr>)
   \<and> snd (save_image (quiet_env\<lparr>clipboard_ok := False\<rparr>) black1
            (window_state\<lparr>save_mode := ''both''\<rparr>)) =
       [EvFileWrite ''/Users/u/Desktop/screenshots'' ''slide_0001.png'' black1 True,
        EvClipboard black1 False, EvSound]
   \<and> status (fst (save_image (quiet_env\<lparr>clipboard_ok := False\<rparr>) black1
                    (window_state\<lparr>save_mode := ''both''\<rparr>))) =
       StSaved [FolderPart ''slide_0001.png'', ClipFailed]"
  using save_image_both_channels [of "window_state\<lparr>save_mode := ''both''\<rparr>"
      "quiet_env\<lparr>clipboard_ok := False\<rparr>" black1]
  by (simp add: window_state_def initial_state_def quiet_env_def slide_name_1)

section \<open>The manual trigger\<close>

text \<open>
  Claim C4, as stated: while the session runs in auto mode a manual trigger fails, captures
  nothing and persists nothing. \<open>manual_capture\<close> never reads the scheduler mode: in a
  running auto session with a live window it captures, saves and returns \<open>True\<close>.
\<close>

theorem manual_capture_succeeds_in_auto_mode:
  "is_running (window_state\<lparr>is_running := True, mode := ''auto''\<rparr>)
   \<and> mode (window_state\<lparr>is_running := True, mode := ''auto''\<rparr>) = ''auto''
   \<and> manual_capture black_env (window_state\<lparr>is_running := True, mode := ''auto''\<rparr>) =
       (window_state\<lparr>is_running := True, mode := ''auto'', capture_count := 1,
                      status := StSaved [FolderPart ''slide_0001.png'']\<rparr>,
        [EvCapture, EvFileWrite ''/Users/u/Desktop/screenshots'' ''slide_0001.png'' black1 True,
         EvSound],
        True)"
  by (simp add: manual_capture_def do_capture_def save_image_def Let_def window_state_def
      initial_state_def quiet_env_def black_env_def truthy_id_def slide_name_1)

text \<open>
  Claim C4, amended. \<open>manual_capture\<close> succeeds only from a running session whose target
  is set, whatever the scheduler mode: when the session is not running, or the target is
  missing, it fails with the corresponding status, captures nothing and persists nothing;
  from a running session with a target whose capture yields a frame it captures once and
  hands that frame to \<open>save_image\<close>. The change detector is never called.
\<close>

theorem manual_capture_gate:
  "(\<not> is_running st \<longrightarrow> manual_capture e st = (st\<lparr>status := StPleaseStart\<rparr>, [], False))
   \<and> (is_running st \<and> target_missing st \<longrightarrow>
        manual_capture e st =
          (st\<lparr>status := (if capture_mode st = ''window'' then StWindowUnselected
                          else StRegionUnset)\<rparr>, [], False))
   \<and> (is_running st \<and> \<not> target_missing st \<longrightarrow>
        (\<forall>img. fst (do_capture e st) = Some img \<longrightarrow>
           manual_capture e st =
             (fst (save_image e img st), snd (do_capture e st) @ snd (save_image e img st), True)))
   \<and> (snd (snd (manual_capture e st)) \<longrightarrow> is_running st \<and> \<not> target_missing st)
   \<and> EvDetect \<notin> set (fst (snd (manual_capture e st)))"
proof -
  have a: "\<not> is_running st \<longrightarrow> manual_capture e st = (st\<lparr>status := StPleaseStart\<rparr>, [], False)"
    by (simp add: manual_capture_def)
  have b: "is_running st \<and> target_missing st \<longrightarrow>
        manual_capture e st =
          (st\<lparr>status := (if capture_mode st = ''window'' then StWindowUnselected
                          else StRegionUnset)\<rparr>, [], False)"
    by (auto simp: manual_capture_def target_missing_def)
  have c: "is_running st \<and> \<not> target_missing st \<longrightarrow>
        (\<forall>img. fst (do_capture e st) = Some img \<longrightarrow>
           manual_capture e st =
             (fst (save_image e img st), snd (do_capture e st) @ snd (save_image e img st), True))"
    by (cases "do_capture e st")
       (auto simp: manual_capture_def target_missing_def split: prod.splits)
  have d: "snd (snd (manual_capture e st)) \<longrightarrow> is_running st \<and> \<not> target_missing st"
    by (cases "do_capture e st")
       (auto simp: manual_capture_def target_missing_def split: prod.splits option.splits)
  have dc: "EvDetect \<notin> set (snd (do_capture e st))"
    by (auto simp: do_capture_def split: option.splits)
  have sv: "\<And>img. EvDetect \<notin> set (snd (save_image e img st))"
    by (auto simp: save_image_def Let_def)
  have f: "EvDetect \<notin> set (fst (snd (manual_capture e st)))"
  proof (cases "do_capture e st")
    case (Pair oi evs)
    with dc have evs: "EvDetect \<notin> set evs" by simp
    show ?thesis
    proof (cases oi)
      case None
      with Pair evs show ?thesis by (simp add: manual_capture_def)
    next
      case (Some img)
      obtain s1 sevs where s: "save_image e img st = (s1, sevs)"
        by (cases "save_image e img st")
      with sv [of img] have "EvDetect \<notin> set sevs" by simp
      with Pair Some s evs show ?thesis by (simp add: manual_capture_def)
    qed
  qed
  show ?thesis
    by (rule conjI [OF a conjI [OF b conjI [OF c conjI [OF d f]]]])
qed

theorem manual_capture_gate_witness:
  "is_running (window_state\<lparr>is_running := True\<rparr>)
   \<and> \<not> target_missing (window_state\<lparr>is_running := True\<rparr>)
   \<and> fst (do_capture black_env (window_state\<lparr>is_running := True\<rparr>)) = Some black1
   \<and> manual_capture black_env (window_state\<lparr>is_running := True\<rparr>) =
       (fst (save_image black_env black1 (window_state\<lparr>is_running := True\<rparr>)),
        snd (do_capture black_env (window_state\<lparr>is_running := True\<rparr>)) @
        snd (save_image black_env black1 (window_state\<lparr>is_running := True\<rparr>)), True)"
proof -
  let ?s = "window_state\<lparr>is_running := True\<rparr>"
  have h1: "is_running ?s" by simp
  have h2: "\<not> target_missing ?s"
    by (simp add: target_missing_def window_state_def initial_state_def truthy_id_def)
  have h3: "fst (do_capture black_env ?s) = Some black1"
    by (simp add: do_capture_def window_state_def initial_state_def truthy_id_def black_env_def)
  note g = manual_capture_gate [of ?s black_env, THEN conjunct2, THEN conjunct2, THEN conjunct1]
  have "\<forall>img. fst (do_capture black_env ?s) = Some img \<longrightarrow>
           manual_capture black_env ?s =
             (fst (save_image black_env img ?s),
              snd (do_capture black_env ?s) @ snd (save_image black_env img ?s), True)"
    by (rule mp [OF g]) (rule conjI [OF h1 h2])
  then have "fst (do_capture black_env ?s) = Some black1 \<longrightarrow> manual_capture black_env ?s =
             (fst (save_image black_env black1 ?s),
              snd (do_capture black_env ?s) @ snd (save_image black_env black1 ?s), True)"
    by (rule spec)
  then have m: "manual_capture black_env ?s =
             (fst (save_image black_env black1 ?s),
              snd (do_capture black_env ?s) @ snd (save_image black_env black1 ?s), True)"
    using h3 by (rule mp)
  show ?thesis
    by (rule conjI [OF h1 conjI [OF h2 conjI [OF h3 m]]])
qed

section \<open>The capture counter\<close>

lemma saves_append: "saves (xs @ ys) = saves xs + saves ys"
  by (simp add: saves_def)

lemma saves_Cons: "saves (ev # evs) = (if ends_save ev then 1 else 0) + saves evs"
  by (simp add: saves_def)

lemma saves_Nil: "saves [] = 0"
  by (simp add: saves_def)

lemma saves_save_image: "saves (snd (save_image e img st)) = 1"
  by (simp add: save_image_def Let_def saves_def)

lemma saves_do_capture: "saves (snd (do_capture e st)) = 0"
  by (simp add: do_capture_def saves_def split: option.splits)

lemma auto_iteration_count:
  "capture_count (fst (auto_iteration e st)) =
   capture_count st + int (saves (snd (auto_iteration e st)))"
proof (cases "do_capture e st")
  case (Pair oi evs)
  with saves_do_capture [of e st] have z: "saves evs = 0" by simp
  show ?thesis
  proof (cases oi)
    case None
    with Pair z show ?thesis by (simp add: auto_iteration_def)
  next
    case (Some cur)
    note cur = Some
    show ?thesis
    proof (cases "last_image st")
      case None
      with Pair cur z show ?thesis by (simp add: auto_iteration_def)
    next
      case (Some prev)
      note prev = Some
      show ?thesis
      proof (cases "images_different prev cur")
        case (Inl exc)
        with Pair cur prev z show ?thesis
          by (simp add: auto_iteration_def saves_append saves_def)
      next
        case (Inr b)
        show ?thesis
        proof (cases b)
          case True
          with Pair cur prev z Inr show ?thesis
            by (simp add: auto_iteration_def saves_append saves_def)
        next
          case False
          note same = False
          show ?thesis
          proof (cases "change_detected_time st")
            case None
            with Pair cur prev z Inr same show ?thesis
              by (simp add: auto_iteration_def saves_append saves_def)
          next
            case (Some t)
            show ?thesis
            proof (cases "t \<noteq> 0 \<and> ge_float (now e - t) (settling_time st)")
              case True
              obtain s1 sevs where sv: "save_image e cur st = (s1, sevs)"
                by (cases "save_image e cur st")
              from sv save_image_count [of e cur st] have c: "capture_count s1 = capture_count st + 1"
                by simp
              from sv saves_save_image [of e cur st] have n: "saves sevs = 1"
                by simp
              have ed: "saves [EvDetect] = 0" by (simp add: saves_def)
              have "auto_iteration e st =
                  (s1\<lparr>change_detected_time := None, last_image := Some cur\<rparr>,
                   evs @ [EvDetect] @ sevs)"
                using Pair cur prev Inr same Some True sv by (simp add: auto_iteration_def)
              then show ?thesis
                by (simp add: saves_append saves_Cons saves_Nil z n c)
            next
              case False
              then have nf: "(t \<noteq> 0 \<and> ge_float (now e - t) (settling_time st)) = False"
                by simp
              have "auto_iteration e st = (st\<lparr>last_image := Some cur\<rparr>, evs @ [EvDetect])"
                using Pair cur prev Inr same Some
                by (simp add: auto_iteration_def nf)
              then show ?thesis
                by (simp add: saves_append saves_Cons saves_Nil z)
            qed
          qed
        qed
      qed
    qed
  qed
qed

lemma auto_monitor_loop_count:
  "capture_count (fst (auto_monitor_loop es st)) =
   capture_count st + int (saves (fst (snd (auto_monitor_loop es st))))"
proof (induction es arbitrary: st)
  case Nil
  show ?case by (simp add: saves_def)
next
  case (Cons e es)
  show ?case
  proof (cases "is_running st \<and> mode st = ''auto''")
    case False
    then show ?thesis by (auto simp: saves_def)
  next
    case True
    obtain s1 evs1 where it: "auto_iteration e st = (s1, evs1)"
      by (cases "auto_iteration e st")
    with auto_iteration_count [of e st]
    have c1: "capture_count s1 = capture_count st + int (saves evs1)" by simp
    show ?thesis
    proof (cases "iteration_sleep e st s1")
      case (Some exc)
      with True it c1 show ?thesis by simp
    next
      case None
      obtain s2 evs2 x where lp: "auto_monitor_loop es s1 = (s2, evs2, x)"
        by (cases "auto_monitor_loop es s1")
      with Cons.IH [of s1] have c2: "capture_count s2 = capture_count s1 + int (saves evs2)"
        by simp
      from True it None lp have "auto_monitor_loop (e # es) st = (s2, evs1 @ evs2, x)"
        by simp
      then show ?thesis
        by (simp add: c1 c2 saves_append)
    qed
  qed
qed

lemma manual_capture_count:
  "capture_count (fst (manual_capture e st)) =
   capture_count st + int (saves (fst (snd (manual_capture e st))))"
proof (cases "do_capture e st")
  case (Pair oi evs)
  with saves_do_capture [of e st] have z: "saves evs = 0" by simp
  show ?thesis
  proof (cases oi)
    case None
    with Pair z show ?thesis by (simp add: manual_capture_def saves_def)
  next
    case (Some img)
    obtain s1 sevs where sv: "save_image e img st = (s1, sevs)"
      by (cases "save_image e img st")
    from sv save_image_count [of e img st] have c: "capture_count s1 = capture_count st + 1"
      by simp
    from sv saves_save_image [of e img st] have n: "saves sevs = 1"
      by simp
    from Pair Some sv z c n show ?thesis
      by (simp add: manual_capture_def saves_def)
  qed
qed

lemma counter_frame:
  "capture_count (stop_capture st) = capture_count st"
  "capture_count (fst (start_capture e st)) = capture_count st"
  "capture_count (fst (interactive_select_region e st)) = capture_count st"
  "capture_count (do_GET e (CaptureModeReq q) st) = capture_count st"
  "capture_count (do_GET e (ModeReq q) st) = capture_count st"
  "capture_count (do_GET e (SaveModeReq q) st) = capture_count st"
proof -
  show "capture_count (stop_capture st) = capture_count st"
    by (simp add: stop_capture_def)
  show "capture_count (fst (start_capture e st)) = capture_count st"
    by (simp add: start_capture_def Let_def)
  show "capture_count (fst (interactive_select_region e st)) = capture_count st"
    by (simp add: interactive_select_region_def Let_def split: option.splits prod.splits)
  show "capture_count (do_GET e (CaptureModeReq q) st) = capture_count st" by simp
  show "capture_count (do_GET e (ModeReq q) st) = capture_count st" by simp
  show "capture_count (do_GET e (SaveModeReq q) st) = capture_count st"
    by (simp add: Let_def)
qed

lemma seed_step_count:
  "capture_count (seed_step e s x) =
   fold max (case name_number e x of None \<Rightarrow> [] | Some num \<Rightarrow> [num]) (capture_count s)"
  by (simp add: seed_step_def name_number_def max.commute split: list.splits option.splits)

lemma foldl_seed_step_count:
  "capture_count (foldl (seed_step e) s xs) =
   fold max (concat (map (\<lambda>name. case name_number e name of None \<Rightarrow> [] | Some num \<Rightarrow> [num]) xs))
     (capture_count s)"
proof (induction xs arbitrary: s)
  case Nil
  show ?case by simp
next
  case (Cons x xs)
  have "capture_count (foldl (seed_step e) (seed_step e s x) xs) =
        fold max (concat (map (\<lambda>name. case name_number e name of None \<Rightarrow> [] | Some num \<Rightarrow> [num]) xs))
          (capture_count (seed_step e s x))"
    by (rule Cons.IH)
  then show ?case
    by (simp add: seed_step_count)
qed

lemma init_capture_count_value:
  "capture_count (init_capture_count e st) =
     (case listdir e (save_dir st) of
        None \<Rightarrow> 0
      | Some names \<Rightarrow> Max (set (0 # parsed_numbers e names)))"
proof (cases "listdir e (save_dir st)")
  case None
  then show ?thesis by (simp add: init_capture_count_def)
next
  case (Some names)
  then have "capture_count (init_capture_count e st) = fold max (parsed_numbers e names) 0"
    by (simp add: init_capture_count_def foldl_seed_step_count parsed_numbers_def)
  also have "\<dots> = Max (set (0 # parsed_numbers e names))"
    by (rule Max.set_eq_fold [symmetric])
  finally show ?thesis using Some by simp
qed

lemma slide_name_parsed:
  assumes "0 \<le> n" and "slide_name n \<in> set names"
  shows "n \<in> set (parsed_numbers e names)"
proof -
  have "slide_name n \<in> set (filter matches_slide_glob names)"
    using assms(2) by (simp add: glob_slide)
  then show ?thesis
    unfolding parsed_numbers_def using name_number_slide [OF assms(1), of e]
    by (auto intro!: bexI [of _ "slide_name n"])
qed

lemma first_save_above_parsed:
  assumes "listdir e (save_dir st) = Some names" and "n \<in> set (parsed_numbers e names)"
  shows "n < capture_count (fst (save_image e' img (init_capture_count e st)))"
proof -
  have "capture_count (init_capture_count e st) = Max (set (0 # parsed_numbers e names))"
    using assms(1) by (simp add: init_capture_count_value)
  moreover have "n \<le> Max (set (0 # parsed_numbers e names))"
    using assms(2) by (intro Max_ge) simp_all
  ultimately show ?thesis
    by (simp add: save_image_count)
qed

lemma parsed_old_listing: "parsed_numbers listing_env old_listing = [3, 10]"
  by code_simp

lemma slide_name_10: "slide_name 10 = ''slide_0010.png''"
  by code_simp

text \<open>
  Claim C5, as stated: the counter is strictly increasing under every operation that
  changes it. The request \<open>/api/reset\<close> sets it to 0.
\<close>

theorem reset_lowers_counter:
  "capture_count (do_GET quiet_env ResetReq (window_state\<lparr>capture_count := 3\<rparr>))
     < capture_count (window_state\<lparr>capture_count := 3\<rparr>)"
  by simp

text \<open>
  Claim C5, amended. Every save adds exactly 1 to the counter; a reset sets it to 0; the
  seeding sets it to the maximum of 0 and the sequence numbers read from the files
  matching \<open>slide_*.png\<close> in the save directory (0 when the directory is absent or no
  name parses), so the first save after a seeding carries a number strictly above every
  number read, in particular above the number of every file an earlier save has named.
  Stopping, starting, the selection of a region and the requests that set the capture
  mode, the scheduler mode or the save mode leave the counter as it is; a manual capture
  and a run of the polling loop add to it exactly the number of saves they make.
\<close>

theorem capture_count_laws:
  "capture_count (fst (save_image e img st)) = capture_count st + 1
   \<and> capture_count (do_GET e ResetReq st) = 0
   \<and> capture_count (init_capture_count e st) =
       (case listdir e (save_dir st) of
          None \<Rightarrow> 0
        | Some names \<Rightarrow> Max (set (0 # parsed_numbers e names)))
   \<and> (\<forall>names n. listdir e (save_dir st) = Some names \<and> n \<in> set (parsed_numbers e names) \<longrightarrow>
          n < capture_count (fst (save_image e' img (init_capture_count e st))))
   \<and> (\<forall>names n. listdir e (save_dir st) = Some names \<and> 0 \<le> n \<and> slide_name n \<in> set names \<longrightarrow>
          n < capture_count (fst (save_image e' img (init_capture_count e st))))
   \<and> capture_count (stop_capture st) = capture_count st
   \<and> capture_count (fst (start_capture e st)) = capture_count st
   \<and> capture_count (fst (interactive_select_region e st)) = capture_count st
   \<and> capture_count (do_GET e (CaptureModeReq q) st) = capture_count st
   \<and> capture_count (do_GET e SelectRegionReq st) = capture_count st
   \<and> capture_count (do_GET e (ModeReq q) st) = capture_count st
   \<and> capture_count (do_GET e (SaveModeReq q) st) = capture_count st
   \<and> capture_count (fst (manual_capture e st)) =
       capture_count st + int (saves (fst (snd (manual_capture e st))))
   \<and> capture_count (fst (auto_monitor_loop es st)) =
       capture_count st + int (saves (fst (snd (auto_monitor_loop es st))))
   \<and> saves (snd (save_image e img st)) = 1"
proof -
  have c2: "capture_count (do_GET e ResetReq st) = 0" by simp
  have c4: "\<forall>names n. listdir e (save_dir st) = Some names \<and> n \<in> set (parsed_numbers e names) \<longrightarrow>
          n < capture_count (fst (save_image e' img (init_capture_count e st)))"
    by (intro allI impI) (elim conjE, rule first_save_above_parsed)
  have c5: "\<forall>names n. listdir e (save_dir st) = Some names \<and> 0 \<le> n \<and> slide_name n \<in> set names \<longrightarrow>
          n < capture_count (fst (save_image e' img (init_capture_count e st)))"
  proof (intro allI impI, elim conjE)
    fix names n
    assume a: "listdir e (save_dir st) = Some names" "0 \<le> n" "slide_name n \<in> set names"
    show "n < capture_count (fst (save_image e' img (init_capture_count e st)))"
      by (rule first_save_above_parsed [OF a(1) slide_name_parsed [OF a(2,3)]])
  qed
  have c10: "capture_count (do_GET e SelectRegionReq st) = capture_count st"
    by (simp add: counter_frame(3))
  show ?thesis
    by (rule conjI [OF save_image_count conjI [OF c2 conjI [OF init_capture_count_value conjI [OF c4 conjI [OF c5 conjI [OF counter_frame(1) conjI [OF counter_frame(2) conjI [OF counter_frame(3) conjI [OF counter_frame(4) conjI [OF c10 conjI [OF counter_frame(5) conjI [OF counter_frame(6) conjI [OF manual_capture_count conjI [OF auto_monitor_loop_count saves_save_image]]]]]]]]]]]]]])
qed

theorem capture_count_laws_witness:
  "listdir listing_env (save_dir window_state) = Some old_listing
   \<and> 3 \<in> set (parsed_numbers listing_env old_listing)
   \<and> slide_name 10 \<in> set old_listing
   \<and> capture_count (init_capture_count listing_env window_state) = 10
   \<and> 3 < capture_count (fst (save_image quiet_env black1
             (init_capture_count listing_env window_state)))
   \<and> 10 < capture_count (fst (save_image quiet_env black1
             (init_capture_count listing_env window_state)))"
proof -
  let ?e = "listing_env"
  note t = capture_count_laws [of ?e black1 window_state quiet_env]
  note pn = parsed_old_listing
  have h1: "listdir ?e (save_dir window_state) = Some old_listing"
    by (simp add: listing_env_def)
  have h2: "3 \<in> set (parsed_numbers ?e old_listing)" by (simp add: pn)
  have h3: "slide_name 10 \<in> set old_listing" by (simp add: slide_name_10 old_listing_def)
  have "capture_count (init_capture_count ?e window_state) =
       (case listdir ?e (save_dir window_state) of
          None \<Rightarrow> 0
        | Some names \<Rightarrow> Max (set (0 # parsed_numbers ?e names)))"
    by (rule t [THEN conjunct2, THEN conjunct2, THEN conjunct1])
  then have c: "capture_count (init_capture_count ?e window_state) = 10"
    by (simp add: h1 pn)
  have "\<forall>names n. listdir ?e (save_dir window_state) = Some names \<and> n \<in> set (parsed_numbers ?e names) \<longrightarrow>
          n < capture_count (fst (save_image quiet_env black1 (init_capture_count ?e window_state)))"
    by (rule t [THEN conjunct2, THEN conjunct2, THEN conjunct2, THEN conjunct1])
  then have "\<forall>n. listdir ?e (save_dir window_state) = Some old_listing \<and> n \<in> set (parsed_numbers ?e old_listing) \<longrightarrow>
          n < capture_count (fst (save_image quiet_env black1 (init_capture_count ?e window_state)))"
    by (rule spec)
  then have "listdir ?e (save_dir window_state) = Some old_listing \<and> 3 \<in> set (parsed_numbers ?e old_listing) \<longrightarrow>
          3 < capture_count (fst (save_image quiet_env black1 (init_capture_count ?e window_state)))"
    by (rule spec)
  then have d: "3 < capture_count (fst (save_image quiet_env black1 (init_capture_count ?e window_state)))"
    by (rule mp) (rule conjI [OF h1 h2])
  have "\<forall>names n. listdir ?e (save_dir window_state) = Some names \<and> 0 \<le> n \<and> slide_name n \<in> set names \<longrightarrow>
          n < capture_count (fst (save_image quiet_env black1 (init_capture_count ?e window_state)))"
    by (rule t [THEN conjunct2, THEN conjunct2, THEN conjunct2, THEN conjunct2, THEN conjunct1])
  then have "\<forall>n. listdir ?e (save_dir window_state) = Some old_listing \<and> 0 \<le> n \<and> slide_name n \<in> set old_listing \<longrightarrow>
          n < capture_count (fst (save_image quiet_env black1 (init_capture_count ?e window_state)))"
    by (rule spec)
  then have "listdir ?e (save_dir window_state) = Some old_listing \<and> 0 \<le> (10::int) \<and> slide_name 10 \<in> set old_listing \<longrightarrow>
          10 < capture_count (fst (save_image quiet_env black1 (init_capture_count ?e window_state)))"
    by (rule spec)
  moreover have "0 \<le> (10::int)" by simp
  ultimately have f: "10 < capture_count (fst (save_image quiet_env black1 (init_capture_count ?e window_state)))"
    using h1 h3 by (rule_tac mp) (assumption, intro conjI)
  show ?thesis
    by (rule conjI [OF h1 conjI [OF h2 conjI [OF h3 conjI [OF c conjI [OF d f]]]]])
qed

section \<open>Mode changes while the session runs\<close>

lemma guarded_requests_while_running:
  assumes "is_running st"
  shows "do_GET e (CaptureModeReq q) st = st \<and> do_GET e (ModeReq q) st = st
       \<and> do_GET e (SaveModeReq q) st = st"
  using assms by simp

text \<open>
  Claim C3. A request that changes the capture mode, the scheduler mode or the save mode
  is to be a no-op while the session runs, the interactive region selection included. The
  three mode requests test the running flag; the region selection does not, and in a
  running window session it sets the capture mode to \<open>region\<close>.
\<close>

theorem select_region_while_running:
  "is_running (window_state\<lparr>is_running := True\<rparr>)
   \<and> capture_mode (window_state\<lparr>is_running := True\<rparr>) = ''window''
   \<and> do_GET (quiet_env\<lparr>selection := Some (400, 200), positions := [(10, 10), (300, 250)]\<rparr>)
        SelectRegionReq (window_state\<lparr>is_running := True\<rparr>) =
       window_state\<lparr>is_running := True, region := Some (100, 150, 200, 100),
                    capture_mode := ''region'', status := StRegion 100 150 200 100\<rparr>"
  by (simp add: interactive_select_region_def Let_def window_state_def initial_state_def
      quiet_env_def)

section \<open>The polling loop: settle, then save once\<close>

lemma save_image_frame:
  "is_running (fst (save_image e img st)) = is_running st"
  "mode (fst (save_image e img st)) = mode st"
  "capture_mode (fst (save_image e img st)) = capture_mode st"
  "target_window_id (fst (save_image e img st)) = target_window_id st"
  "region (fst (save_image e img st)) = region st"
  "settling_time (fst (save_image e img st)) = settling_time st"
  "polling_interval (fst (save_image e img st)) = polling_interval st"
  "save_mode (fst (save_image e img st)) = save_mode st"
  "last_image (fst (save_image e img st)) = last_image st"
  "change_detected_time (fst (save_image e img st)) = change_detected_time st"
  by (simp_all add: save_image_def Let_def)

lemma save_image_files:
  "files_written (snd (save_image e img st)) =
   (if (save_mode st = ''folder'' \<or> save_mode st = ''both'') \<and> folder_write_ok e then 1 else 0)"
  by (simp add: save_image_def Let_def files_written_def)

lemma do_capture_target_only:
  assumes "capture_mode st' = capture_mode st" and "target_window_id st' = target_window_id st"
    and "region st' = region st"
  shows "do_capture e st' = do_capture e st"
  by (simp only: do_capture_def assms)

lemma do_capture_events:
  "fst (do_capture e st) = Some img \<Longrightarrow> snd (do_capture e st) = [EvCapture]"
  by (auto simp: do_capture_def split: option.splits if_splits)

lemma stable_run_target_only:
  assumes "capture_mode st' = capture_mode st" and "target_window_id st' = target_window_id st"
    and "region st' = region st"
  shows "stable_run st' prev es = stable_run st prev es"
  by (induction es arbitrary: prev)
    (simp_all add: do_capture_target_only [OF assms] split: option.splits)

lemma iteration_changed:
  assumes "fst (do_capture e st) = Some cur" and "last_image st = Some prev"
    and "images_different prev cur = Inr True"
  shows "auto_iteration e st =
         (st\<lparr>change_detected_time := Some (now e), status := StChangeDetected,
             last_image := Some cur\<rparr>, [EvCapture, EvDetect])"
  using assms do_capture_events [OF assms(1)]
  by (cases "do_capture e st") (simp add: auto_iteration_def)

lemma iteration_waiting:
  assumes "fst (do_capture e st) = Some cur" and "last_image st = Some prev"
    and "images_different prev cur = Inr False" and "not_due st e"
  shows "auto_iteration e st = (st\<lparr>last_image := Some cur\<rparr>, [EvCapture, EvDetect])"
proof (cases "change_detected_time st")
  case None
  with assms(1-3) do_capture_events [OF assms(1)] show ?thesis
    by (cases "do_capture e st") (simp add: auto_iteration_def)
next
  case (Some t)
  with assms(4) have nf: "(t \<noteq> 0 \<and> ge_float (now e - t) (settling_time st)) = False"
    by (auto simp: not_due_def)
  from Some assms(1-3) do_capture_events [OF assms(1)] show ?thesis
    by (cases "do_capture e st") (simp add: auto_iteration_def nf)
qed

lemma iteration_due:
  assumes "fst (do_capture e st) = Some cur" and "last_image st = Some prev"
    and "images_different prev cur = Inr False"
    and "change_detected_time st = Some t" and "t \<noteq> 0"
    and "ge_float (now e - t) (settling_time st)"
  shows "auto_iteration e st =
         ((fst (save_image e cur st))\<lparr>change_detected_time := None, last_image := Some cur\<rparr>,
          [EvCapture, EvDetect] @ snd (save_image e cur st))"
  using assms do_capture_events [OF assms(1)]
  by (cases "do_capture e st") (simp add: auto_iteration_def split: prod.splits)

lemma loop_step:
  assumes "is_running st" and "mode st = ''auto''" and "auto_iteration e st = (s1, evs1)"
    and "fst (do_capture e st) = Some cur" and "sleep_error (polling_interval s1) = None"
    and "auto_monitor_loop es s1 = (s2, evs2, x)"
  shows "auto_monitor_loop (e # es) st = (s2, evs1 @ evs2, x)"
  using assms by (simp add: iteration_sleep_def)

lemma loop_stopped:
  assumes "\<not> (is_running st \<and> mode st = ''auto'')"
  shows "auto_monitor_loop es st = (st, [], None)"
proof (cases es)
  case Nil
  then show ?thesis by simp
next
  case (Cons a list)
  have "auto_monitor_loop (a # list) st = (st, [], None)"
    by (simp only: auto_monitor_loop.simps assms if_False)
  with Cons show ?thesis by simp
qed

lemma auto_monitor_loop_chain:
  assumes "auto_monitor_loop xs st = (st1, evs1, None)"
    and "auto_monitor_loop ys st1 = (st2, evs2, x)"
  shows "auto_monitor_loop (xs @ ys) st = (st2, evs1 @ evs2, x)"
  using assms
proof (induction xs arbitrary: st evs1)
  case Nil
  then show ?case by simp
next
  case (Cons a xs)
  show ?case
  proof (cases "is_running st \<and> mode st = ''auto''")
    case False
    note stop = loop_stopped [OF False]
    from Cons.prems(1) have eq: "st1 = st" "evs1 = []"
      by (simp_all add: stop)
    from Cons.prems(2) have "st2 = st \<and> evs2 = [] \<and> x = None"
      by (simp add: eq stop)
    then show ?thesis
      by (simp add: eq stop)
  next
    case True
    obtain s' evs' where it: "auto_iteration a st = (s', evs')"
      by (cases "auto_iteration a st")
    show ?thesis
    proof (cases "iteration_sleep a st s'")
      case (Some exc)
      with True it Cons.prems(1) show ?thesis by simp
    next
      case None
      obtain sa evsa xa where lp: "auto_monitor_loop xs s' = (sa, evsa, xa)"
        by (cases "auto_monitor_loop xs s'")
      with True it None Cons.prems(1) have eq: "sa = st1" "evs1 = evs' @ evsa" "xa = None"
        by simp_all
      from lp have "auto_monitor_loop xs s' = (st1, evsa, None)"
        by (simp only: eq)
      from Cons.IH [OF this Cons.prems(2)]
      have "auto_monitor_loop (xs @ ys) s' = (st2, evsa @ evs2, x)" .
      with True it None show ?thesis
        by (simp add: eq)
    qed
  qed
qed

lemma not_due_last_image [simp]: "not_due (st\<lparr>last_image := x\<rparr>) e = not_due st e"
  by (simp add: not_due_def split: option.splits)

lemma do_capture_updates [simp]:
  "do_capture e (st\<lparr>last_image := x\<rparr>) = do_capture e st"
  "do_capture e (st\<lparr>change_detected_time := y\<rparr>) = do_capture e st"
  "do_capture e (st\<lparr>status := z\<rparr>) = do_capture e st"
  by (rule do_capture_target_only; simp)+

lemma stable_run_updates [simp]:
  "stable_run (st\<lparr>last_image := x\<rparr>) prev es = stable_run st prev es"
  "stable_run (st\<lparr>change_detected_time := y\<rparr>) prev es = stable_run st prev es"
  "stable_run (st\<lparr>status := z\<rparr>) prev es = stable_run st prev es"
  by (rule stable_run_target_only; simp)+

lemma quiet_run:
  assumes "is_running st" and "mode st = ''auto''" and "last_image st = Some prev"
    and "stable_run st prev (es @ rest)" and "list_all (not_due st) es"
    and "sleep_error (polling_interval st) = None"
  shows "\<exists>cur. auto_monitor_loop es st =
               (st\<lparr>last_image := Some cur\<rparr>,
                concat (replicate (length es) [EvCapture, EvDetect]), None)
             \<and> stable_run st cur rest"
  using assms
proof (induction es arbitrary: st prev)
  case Nil
  have same: "st\<lparr>last_image := Some prev\<rparr> = st"
    using Nil.prems(3) [symmetric] by simp
  have "auto_monitor_loop [] st =
          (st\<lparr>last_image := Some prev\<rparr>,
           concat (replicate (length ([]::env list)) [EvCapture, EvDetect]), None)
        \<and> stable_run st prev rest"
    using Nil.prems(4) by (simp add: same)
  then show ?case by (rule exI)
next
  case (Cons e es)
  from Cons.prems(4) obtain cur where
    cap: "fst (do_capture e st) = Some cur" and same: "images_different prev cur = Inr False"
    and rest: "stable_run st cur (es @ rest)"
    by (cases "fst (do_capture e st)") simp_all
  let ?st1 = "st\<lparr>last_image := Some cur\<rparr>"
  from Cons.prems(5) have nd: "not_due st e" and nds: "list_all (not_due st) es"
    by simp_all
  have step: "auto_iteration e st = (?st1, [EvCapture, EvDetect])"
    by (rule iteration_waiting [OF cap Cons.prems(3) same nd])
  have r1: "is_running ?st1" "mode ?st1 = ''auto''" "last_image ?st1 = Some cur"
    using Cons.prems(1,2) by simp_all
  have rest1: "stable_run ?st1 cur (es @ rest)"
    using rest by simp
  have nds1: "list_all (not_due ?st1) es"
    using nds by (simp add: list_all_iff)
  have sl1: "sleep_error (polling_interval ?st1) = None"
    using Cons.prems(6) by simp
  from Cons.IH [OF r1 rest1 nds1 sl1]
  obtain cur' where
    run: "auto_monitor_loop es ?st1 =
          (?st1\<lparr>last_image := Some cur'\<rparr>,
           concat (replicate (length es) [EvCapture, EvDetect]), None)"
    and rest': "stable_run ?st1 cur' rest"
    by (elim exE conjE)
  have "auto_monitor_loop (e # es) st =
        (?st1\<lparr>last_image := Some cur'\<rparr>,
         [EvCapture, EvDetect] @ concat (replicate (length es) [EvCapture, EvDetect]), None)"
    by (rule loop_step [OF Cons.prems(1,2) step cap sl1 run])
  then have "auto_monitor_loop (e # es) st =
        (st\<lparr>last_image := Some cur'\<rparr>,
         concat (replicate (length (e # es)) [EvCapture, EvDetect]), None)"
    by simp
  moreover have "stable_run st cur' rest"
    using rest' by simp
  ultimately have "auto_monitor_loop (e # es) st =
        (st\<lparr>last_image := Some cur'\<rparr>,
         concat (replicate (length (e # es)) [EvCapture, EvDetect]), None)
      \<and> stable_run st cur' rest"
    by (rule conjI)
  then show ?case by (rule exI)
qed

lemma files_written_append [simp]:
  "files_written (xs @ ys) = files_written xs + files_written ys"
  by (simp add: files_written_def)

lemma files_written_Cons [simp]:
  "files_written (ev # evs) = (if is_written_file ev then 1 else 0) + files_written evs"
  by (simp add: files_written_def)

lemma files_written_Nil [simp]: "files_written [] = 0"
  by (simp add: files_written_def)

lemma files_written_quiet [simp]:
  "files_written (concat (replicate n [EvCapture, EvDetect])) = 0"
  by (induction n) simp_all

lemma write_attempts_quiet [simp]:
  "filter is_write_attempt (concat (replicate n [EvCapture, EvDetect])) = []"
  by (induction n) simp_all

lemma settle_then_save_run:
  assumes running: "is_running st" "mode st = ''auto''"
    and last: "last_image st = Some img0"
    and interval: "sleep_error (polling_interval st) = None"
    and change: "fst (do_capture e0 st) = Some img1" "images_different img0 img1 = Inr True"
    and clock: "now e0 \<noteq> 0"
    and stable: "stable_run st img1 (pre @ e # post)"
    and early: "list_all (\<lambda>e'. \<not> ge_float (now e' - now e0) (settling_time st)) pre"
    and due: "ge_float (now e - now e0) (settling_time st)"
  shows "capture_count (fst (auto_monitor_loop [e0] st)) = capture_count st
       \<and> change_detected_time (fst (auto_monitor_loop [e0] st)) = Some (now e0)
       \<and> filter is_write_attempt (fst (snd (auto_monitor_loop (e0 # pre) st))) = []
       \<and> capture_count (fst (auto_monitor_loop (e0 # pre) st)) = capture_count st
       \<and> capture_count (fst (auto_monitor_loop (e0 # pre @ [e]) st)) = capture_count st + 1
       \<and> change_detected_time (fst (auto_monitor_loop (e0 # pre @ [e]) st)) = None
       \<and> capture_count (fst (auto_monitor_loop (e0 # pre @ e # post) st)) = capture_count st + 1
       \<and> change_detected_time (fst (auto_monitor_loop (e0 # pre @ e # post) st)) = None
       \<and> saves (fst (snd (auto_monitor_loop (e0 # pre @ e # post) st))) = 1
       \<and> files_written (fst (snd (auto_monitor_loop (e0 # pre @ e # post) st))) =
           (if (save_mode st = ''folder'' \<or> save_mode st = ''both'') \<and> folder_write_ok e
            then 1 else 0)
       \<and> snd (snd (auto_monitor_loop (e0 # pre @ e # post) st)) = None"
proof -
  let ?s1 = "st\<lparr>change_detected_time := Some (now e0), status := StChangeDetected,
                 last_image := Some img1\<rparr>"
  have it1: "auto_iteration e0 st = (?s1, [EvCapture, EvDetect])"
    by (rule iteration_changed [OF change(1) last change(2)])
  have sl1: "sleep_error (polling_interval ?s1) = None"
    using interval by simp
  have nil1: "auto_monitor_loop [] ?s1 = (?s1, [], None)" by simp
  have L1: "auto_monitor_loop [e0] st = (?s1, [EvCapture, EvDetect], None)"
    using loop_step [OF running it1 change(1) sl1 nil1] by simp
  have run1: "is_running ?s1" "mode ?s1 = ''auto''" "last_image ?s1 = Some img1"
    using running by simp_all
  have stable1: "stable_run ?s1 img1 (pre @ e # post)"
    using stable by simp
  have early1: "list_all (not_due ?s1) pre"
    using early by (simp add: not_due_def list_all_iff)
  from quiet_run [OF run1 stable1 early1 sl1]
  obtain cur where
    L2: "auto_monitor_loop pre ?s1 =
         (?s1\<lparr>last_image := Some cur\<rparr>,
          concat (replicate (length pre) [EvCapture, EvDetect]), None)"
    and stable2: "stable_run ?s1 cur (e # post)"
    by (elim exE conjE)
  let ?s2 = "?s1\<lparr>last_image := Some cur\<rparr>"
  let ?q = "concat (replicate (length pre) [EvCapture, EvDetect])"
  from stable2 obtain c2 where
    cap: "fst (do_capture e ?s1) = Some c2" and same: "images_different cur c2 = Inr False"
    and stable3: "stable_run ?s1 c2 post"
    by (cases "fst (do_capture e ?s1)") simp_all
  have cap2: "fst (do_capture e ?s2) = Some c2"
    using cap by simp
  have run2: "is_running ?s2" "mode ?s2 = ''auto''"
    using running by simp_all
  let ?s3 = "(fst (save_image e c2 ?s2))\<lparr>change_detected_time := None, last_image := Some c2\<rparr>"
  have it3: "auto_iteration e ?s2 = (?s3, [EvCapture, EvDetect] @ snd (save_image e c2 ?s2))"
    using iteration_due [where st = ?s2 and e = e and cur = c2 and prev = cur and t = "now e0"]
      cap2 same clock due
    by simp
  have sl3: "sleep_error (polling_interval ?s3) = None"
    using interval by (simp add: save_image_frame)
  have nil3: "auto_monitor_loop [] ?s3 = (?s3, [], None)" by simp
  have L3: "auto_monitor_loop [e] ?s2 =
      (?s3, [EvCapture, EvDetect] @ snd (save_image e c2 ?s2), None)"
    using loop_step [OF run2 it3 cap2 sl3 nil3] by simp
  have run3: "is_running ?s3" "mode ?s3 = ''auto''" "last_image ?s3 = Some c2"
    using running by (simp_all add: save_image_frame)
  have "stable_run ?s3 c2 post = stable_run st c2 post"
    by (rule stable_run_target_only) (simp_all add: save_image_frame)
  with stable3 have stable4: "stable_run ?s3 c2 (post @ [])"
    by simp
  have idle: "list_all (not_due ?s3) post"
    by (simp add: not_due_def list_all_iff)
  from quiet_run [OF run3 stable4 idle sl3]
  obtain c3 where
    L4: "auto_monitor_loop post ?s3 =
         (?s3\<lparr>last_image := Some c3\<rparr>,
          concat (replicate (length post) [EvCapture, EvDetect]), None)"
    by (elim exE conjE)
  have A: "auto_monitor_loop (e0 # pre) st = (?s2, [EvCapture, EvDetect] @ ?q, None)"
    using auto_monitor_loop_chain [OF L1 L2] by (simp only: append.simps)
  have B: "auto_monitor_loop (e0 # pre @ [e]) st =
           (?s3, ([EvCapture, EvDetect] @ ?q) @ [EvCapture, EvDetect] @ snd (save_image e c2 ?s2),
            None)"
    using auto_monitor_loop_chain [OF A L3] by (simp only: append.simps)
  have C: "auto_monitor_loop (e0 # pre @ e # post) st =
           (?s3\<lparr>last_image := Some c3\<rparr>,
            (([EvCapture, EvDetect] @ ?q) @ [EvCapture, EvDetect] @ snd (save_image e c2 ?s2)) @
            concat (replicate (length post) [EvCapture, EvDetect]), None)"
    using auto_monitor_loop_chain [OF B L4] by (simp only: append.simps append_assoc)
  have s1_facts: "capture_count ?s1 = capture_count st"
    "change_detected_time ?s1 = Some (now e0)"
    by simp_all
  have s2_facts: "capture_count ?s2 = capture_count st"
    by simp
  have s3_facts: "capture_count ?s3 = capture_count st + 1" "change_detected_time ?s3 = None"
    by (simp_all add: save_image_count)
  have s4_facts: "capture_count (?s3\<lparr>last_image := Some c3\<rparr>) = capture_count st + 1"
    "change_detected_time (?s3\<lparr>last_image := Some c3\<rparr>) = None"
    by (simp_all add: save_image_count)
  have quietA: "filter is_write_attempt ([EvCapture, EvDetect] @ ?q) = []"
    by simp
  have "save_mode ?s2 = save_mode st"
    by simp
  then have files: "files_written (snd (save_image e c2 ?s2)) =
      (if (save_mode st = ''folder'' \<or> save_mode st = ''both'') \<and> folder_write_ok e then 1 else 0)"
    by (simp only: save_image_files)
  have filesC: "files_written
      ((([EvCapture, EvDetect] @ ?q) @ [EvCapture, EvDetect] @ snd (save_image e c2 ?s2)) @
       concat (replicate (length post) [EvCapture, EvDetect])) =
      files_written (snd (save_image e c2 ?s2))"
    by (simp only: files_written_append files_written_quiet files_written_Cons files_written_Nil
        is_written_file.simps if_False add_0 add_0_right)
  have c1: "capture_count (fst (auto_monitor_loop [e0] st)) = capture_count st"
    by (simp only: L1 fst_conv s1_facts)
  have c2: "change_detected_time (fst (auto_monitor_loop [e0] st)) = Some (now e0)"
    by (simp only: L1 fst_conv s1_facts)
  have c3: "filter is_write_attempt (fst (snd (auto_monitor_loop (e0 # pre) st))) = []"
    by (simp only: A fst_conv snd_conv quietA)
  have c4: "capture_count (fst (auto_monitor_loop (e0 # pre) st)) = capture_count st"
    by (simp only: A fst_conv s2_facts)
  have c5: "capture_count (fst (auto_monitor_loop (e0 # pre @ [e]) st)) = capture_count st + 1"
    by (simp only: B fst_conv s3_facts)
  have c6: "change_detected_time (fst (auto_monitor_loop (e0 # pre @ [e]) st)) = None"
    by (simp only: B fst_conv s3_facts)
  have c7: "capture_count (fst (auto_monitor_loop (e0 # pre @ e # post) st)) = capture_count st + 1"
    by (simp only: C fst_conv s4_facts)
  have c8: "change_detected_time (fst (auto_monitor_loop (e0 # pre @ e # post) st)) = None"
    by (simp only: C fst_conv s4_facts)
  have c9: "saves (fst (snd (auto_monitor_loop (e0 # pre @ e # post) st))) = 1"
    using auto_monitor_loop_count [of "e0 # pre @ e # post" st] c7 by simp
  have c10: "files_written (fst (snd (auto_monitor_loop (e0 # pre @ e # post) st))) =
           (if (save_mode st = ''folder'' \<or> save_mode st = ''both'') \<and> folder_write_ok e
            then 1 else 0)"
    by (simp only: C fst_conv snd_conv filesC files)
  have c11: "snd (snd (auto_monitor_loop (e0 # pre @ e # post) st)) = None"
    by (simp only: C snd_conv)
  show ?thesis
    by (rule conjI [OF c1 conjI [OF c2 conjI [OF c3 conjI [OF c4 conjI [OF c5 conjI [OF c6 conjI [OF c7 conjI [OF c8 conjI [OF c9 conjI [OF c10 c11]]]]]]]]]])
qed

text \<open>
  With a polling interval that \<open>time.sleep\<close> refuses, the thread ends with the first
  iteration that captures a frame.
\<close>

lemma auto_iteration_interval:
  "polling_interval (fst (auto_iteration e st)) = polling_interval st"
proof (cases "do_capture e st")
  case (Pair oi evs)
  show ?thesis
  proof (cases "\<exists>cur prev t. oi = Some cur \<and> last_image st = Some prev \<and>
      images_different prev cur = Inr False \<and> change_detected_time st = Some t \<and>
      t \<noteq> 0 \<and> ge_float (now e - t) (settling_time st)")
    case True
    then obtain cur prev t where h: "oi = Some cur" "last_image st = Some prev"
      "images_different prev cur = Inr False" "change_detected_time st = Some t"
      "t \<noteq> 0" "ge_float (now e - t) (settling_time st)"
      by (elim exE conjE)
    obtain s1 sevs where sv: "save_image e cur st = (s1, sevs)"
      by (cases "save_image e cur st")
    with save_image_frame(7) [of e cur st] have "polling_interval s1 = polling_interval st"
      by simp
    with Pair h sv show ?thesis
      by (simp add: auto_iteration_def)
  next
    case False
    with Pair show ?thesis
      by (auto simp: auto_iteration_def split: option.splits sum.splits bool.splits)
  qed
qed

lemma bad_interval_ends_thread:
  assumes "is_running st" and "mode st = ''auto''" and "fst (do_capture e st) = Some cur"
    and "sleep_error (polling_interval st) = Some exc"
  shows "auto_monitor_loop (e # es) st =
         (fst (auto_iteration e st), snd (auto_iteration e st), Some exc)"
proof -
  have "iteration_sleep e st (fst (auto_iteration e st)) = Some exc"
    using assms(3,4) by (simp add: iteration_sleep_def auto_iteration_interval)
  with assms(1,2) show ?thesis
    by (simp add: case_prod_unfold Let_def)
qed

lemma diff_black_red: "images_different black1 red1 = Inr True"
  by (simp add: images_different_red_only img_size_def black1_def red1_def difference_def
      abs_diff_def)

lemma diff_red_red: "images_different red1 red1 = Inr False"
  by (simp add: images_different_red_only img_size_def red1_def difference_def abs_diff_def)

lemma auto_state_facts:
  "is_running auto_state" "mode auto_state = ''auto''" "last_image auto_state = Some black1"
  "sleep_error (polling_interval auto_state) = None"
  "settling_time auto_state = Finite (1 / 2)" "capture_count auto_state = 0"
  "save_mode auto_state = ''folder''"
  by (simp_all add: auto_state_def window_state_def initial_state_def)

lemma clip_state_facts:
  "is_running clip_state" "mode clip_state = ''auto''" "last_image clip_state = Some black1"
  "sleep_error (polling_interval clip_state) = None"
  "settling_time clip_state = Finite (1 / 2)" "capture_count clip_state = 0"
  "save_mode clip_state = ''clipboard''"
  by (simp_all add: clip_state_def auto_state_def window_state_def initial_state_def)

lemma do_capture_red:
  "fst (do_capture (red_env t) auto_state) = Some red1"
  "fst (do_capture (red_env t) clip_state) = Some red1"
  by (simp_all add: do_capture_def clip_state_def auto_state_def window_state_def
      initial_state_def truthy_id_def red_env_def)

lemma red_env_facts: "now (red_env t) = t" "folder_write_ok (red_env t)"
  by (simp_all add: red_env_def quiet_env_def)

text \<open>
  Claim C2, as stated: a detected change followed by the settling time of stability
  produces exactly one persisted file. In a session that saves to the clipboard only, the
  save fires once and no file is written.
\<close>

theorem settle_in_clipboard_mode_writes_no_file:
  "is_running clip_state \<and> mode clip_state = ''auto'' \<and> last_image clip_state = Some black1
   \<and> sleep_error (polling_interval clip_state) = None
   \<and> fst (do_capture (red_env 1000) clip_state) = Some red1
   \<and> images_different black1 red1 = Inr True
   \<and> stable_run clip_state red1 [red_env (1000 + 1 / 5), red_env (1000 + 3 / 5), red_env (1000 + 4 / 5)]
   \<and> capture_count (fst (auto_monitor_loop
         [red_env 1000, red_env (1000 + 1 / 5), red_env (1000 + 3 / 5), red_env (1000 + 4 / 5)]
         clip_state)) = 1
   \<and> files_written (fst (snd (auto_monitor_loop
         [red_env 1000, red_env (1000 + 1 / 5), red_env (1000 + 3 / 5), red_env (1000 + 4 / 5)]
         clip_state))) = 0"
proof -
  let ?ea = "red_env 1000" and ?eb = "red_env (1000 + 1 / 5)" and ?ec = "red_env (1000 + 3 / 5)"
    and ?ed = "red_env (1000 + 4 / 5)"
  note f = clip_state_facts
  have h6: "now ?ea \<noteq> 0" by (simp add: red_env_facts)
  have h7: "stable_run clip_state red1 ([?eb] @ ?ec # [?ed])"
    by (simp add: do_capture_red diff_red_red)
  have h8: "list_all (\<lambda>e'. \<not> ge_float (now e' - now ?ea) (settling_time clip_state)) [?eb]"
    by (simp add: f(5) red_env_facts)
  have h9: "ge_float (now ?ec - now ?ea) (settling_time clip_state)"
    by (simp add: f(5) red_env_facts)
  note t = settle_then_save_run [OF f(1) f(2) f(3) f(4) do_capture_red(2) diff_black_red h6 h7 h8 h9]
  have a: "capture_count (fst (auto_monitor_loop [?ea, ?eb] clip_state)) = 0"
    using t [THEN conjunct2, THEN conjunct2, THEN conjunct2, THEN conjunct1]
    by (simp only: f(6))
  have b: "capture_count (fst (auto_monitor_loop [?ea, ?eb, ?ec] clip_state)) = 1"
    using t [THEN conjunct2, THEN conjunct2, THEN conjunct2, THEN conjunct2, THEN conjunct1]
    by (simp only: f(6) append.simps add_0)
  have c: "capture_count (fst (auto_monitor_loop [?ea, ?eb, ?ec, ?ed] clip_state)) = 1"
    using t [THEN conjunct2, THEN conjunct2, THEN conjunct2, THEN conjunct2, THEN conjunct2, THEN conjunct2, THEN conjunct1]
    by (simp only: f(6) append.simps add_0)
  have d: "files_written (fst (snd (auto_monitor_loop [?ea, ?eb, ?ec, ?ed] clip_state))) = 0"
    using t [THEN conjunct2, THEN conjunct2, THEN conjunct2, THEN conjunct2, THEN conjunct2, THEN conjunct2, THEN conjunct2, THEN conjunct2, THEN conjunct2, THEN conjunct1]
    by (simp add: f(7) red_env_facts)
  have h7': "stable_run clip_state red1 [?eb, ?ec, ?ed]"
    using h7 by (simp only: append.simps)
  show ?thesis
    by (rule conjI [OF f(1) conjI [OF f(2) conjI [OF f(3) conjI [OF f(4) conjI [OF do_capture_red(2) conjI [OF diff_black_red conjI [OF h7' conjI [OF c d]]]]]]]])
qed

text \<open>
  Claim C2, amended. In the polling loop of a running auto session whose polling interval
  \<open>time.sleep\<close> accepts, let an iteration detect a change (its clock reading is the
  pending timestamp), and let the iterations after it be stable: first those at which the
  settling time has not passed, then one at which it has, then any number more. Then the
  detecting iteration saves nothing and stores the timestamp; the early stable iterations
  attempt no write and leave the counter alone; the first iteration at which the settling
  time has passed calls \<open>save_image\<close> and clears the timestamp; and the stable iterations
  after it save nothing more: over the whole run \<open>save_image\<close> is called exactly once,
  the counter has grown by exactly 1, the thread is alive, and one file was written when
  the folder is a destination and its write succeeds, none otherwise.
\<close>

theorem auto_loop_settle_then_save:
  assumes running: "is_running st" "mode st = ''auto''"
    and last: "last_image st = Some img0"
    and interval: "sleep_error (polling_interval st) = None"
    and change: "fst (do_capture e0 st) = Some img1" "images_different img0 img1 = Inr True"
    and clock: "now e0 \<noteq> 0"
    and stable: "stable_run st img1 (pre @ e # post)"
    and early: "list_all (\<lambda>e'. \<not> ge_float (now e' - now e0) (settling_time st)) pre"
    and due: "ge_float (now e - now e0) (settling_time st)"
  shows "capture_count (fst (auto_monitor_loop [e0] st)) = capture_count st
       \<and> change_detected_time (fst (auto_monitor_loop [e0] st)) = Some (now e0)
       \<and> filter is_write_attempt (fst (snd (auto_monitor_loop (e0 # pre) st))) = []
       \<and> capture_count (fst (auto_monitor_loop (e0 # pre) st)) = capture_count st
       \<and> capture_count (fst (auto_monitor_loop (e0 # pre @ [e]) st)) = capture_count st + 1
       \<and> change_detected_time (fst (auto_monitor_loop (e0 # pre @ [e]) st)) = None
       \<and> capture_count (fst (auto_monitor_loop (e0 # pre @ e # post) st)) = capture_count st + 1
       \<and> change_detected_time (fst (auto_monitor_loop (e0 # pre @ e # post) st)) = None
       \<and> saves (fst (snd (auto_monitor_loop (e0 # pre @ e # post) st))) = 1
       \<and> files_written (fst (snd (auto_monitor_loop (e0 # pre @ e # post) st))) =
           (if (save_mode st = ''folder'' \<or> save_mode st = ''both'') \<and> folder_write_ok e
            then 1 else 0)
       \<and> snd (snd (auto_monitor_loop (e0 # pre @ e # post) st)) = None"
  by (rule settle_then_save_run [OF assms])

theorem auto_loop_settle_then_save_witness:
  "is_running auto_state \<and> mode auto_state = ''auto'' \<and> last_image auto_state = Some black1
   \<and> sleep_error (polling_interval auto_state) = None
   \<and> fst (do_capture (red_env 1000) auto_state) = Some red1
   \<and> images_different black1 red1 = Inr True
   \<and> stable_run auto_state red1 [red_env (1000 + 1 / 5), red_env (1000 + 3 / 5), red_env (1000 + 4 / 5)]
   \<and> capture_count (fst (auto_monitor_loop [red_env 1000, red_env (1000 + 1 / 5)] auto_state)) = 0
   \<and> capture_count (fst (auto_monitor_loop
         [red_env 1000, red_env (1000 + 1 / 5), red_env (1000 + 3 / 5)] auto_state)) = 1
   \<and> capture_count (fst (auto_monitor_loop
         [red_env 1000, red_env (1000 + 1 / 5), red_env (1000 + 3 / 5), red_env (1000 + 4 / 5)]
         auto_state)) = 1
   \<and> files_written (fst (snd (auto_monitor_loop
         [red_env 1000, red_env (1000 + 1 / 5), red_env (1000 + 3 / 5), red_env (1000 + 4 / 5)]
         auto_state))) = 1"
proof -
  let ?ea = "red_env 1000" and ?eb = "red_env (1000 + 1 / 5)" and ?ec = "red_env (1000 + 3 / 5)"
    and ?ed = "red_env (1000 + 4 / 5)"
  note f = auto_state_facts
  have h6: "now ?ea \<noteq> 0" by (simp add: red_env_facts)
  have h7: "stable_run auto_state red1 ([?eb] @ ?ec # [?ed])"
    by (simp add: do_capture_red diff_red_red)
  have h8: "list_all (\<lambda>e'. \<not> ge_float (now e' - now ?ea) (settling_time auto_state)) [?eb]"
    by (simp add: f(5) red_env_facts)
  have h9: "ge_float (now ?ec - now ?ea) (settling_time auto_state)"
    by (simp add: f(5) red_env_facts)
  note t = auto_loop_settle_then_save [OF f(1) f(2) f(3) f(4) do_capture_red(1) diff_black_red h6 h7 h8 h9]
  have a: "capture_count (fst (auto_monitor_loop [?ea, ?eb] auto_state)) = 0"
    using t [THEN conjunct2, THEN conjunct2, THEN conjunct2, THEN conjunct1]
    by (simp only: f(6))
  have b: "capture_count (fst (auto_monitor_loop [?ea, ?eb, ?ec] auto_state)) = 1"
    using t [THEN conjunct2, THEN conjunct2, THEN conjunct2, THEN conjunct2, THEN conjunct1]
    by (simp only: f(6) append.simps add_0)
  have c: "capture_count (fst (auto_monitor_loop [?ea, ?eb, ?ec, ?ed] auto_state)) = 1"
    using t [THEN conjunct2, THEN conjunct2, THEN conjunct2, THEN conjunct2, THEN conjunct2, THEN conjunct2, THEN conjunct1]
    by (simp only: f(6) append.simps add_0)
  have d: "files_written (fst (snd (auto_monitor_loop [?ea, ?eb, ?ec, ?ed] auto_state))) = 1"
    using t [THEN conjunct2, THEN conjunct2, THEN conjunct2, THEN conjunct2, THEN conjunct2, THEN conjunct2, THEN conjunct2, THEN conjunct2, THEN conjunct2, THEN conjunct1]
    by (simp add: f(7) red_env_facts)
  have h7': "stable_run auto_state red1 [?eb, ?ec, ?ed]"
    using h7 by (simp only: append.simps)
  show ?thesis
    by (rule conjI [OF f(1) conjI [OF f(2) conjI [OF f(3) conjI [OF f(4) conjI [OF do_capture_red(1) conjI [OF diff_black_red conjI [OF h7' conjI [OF a conjI [OF b conjI [OF c d]]]]]]]]]])
qed

end
